theory Spec2Isabelle
  imports Main "HOL-Library.Word"
begin

unbundle bit_operations_syntax

section \<open>Machine integers and little-endian fields\<close>

text \<open>
  The source stores its integer fields with \<^verbatim>\<open>fread(&x, sizeof(x), 1, file)\<close> and
  \<^verbatim>\<open>fwrite(&x, sizeof(x), 1, file)\<close>, that is, in the byte order of the host, which is
  little-endian on the target.  \<^verbatim>\<open>size_t\<close> and \<^verbatim>\<open>uLongf\<close> are 32 bits wide there: the call
  \<^verbatim>\<open>std::min(chunkSize - chunkIndex, (u32)length - rv)\<close> in Read and Skip only compiles when
  \<^verbatim>\<open>size_t\<close> and \<^verbatim>\<open>u32\<close> are the same type.
\<close>

type_synonym u8 = "8 word"
type_synonym u32 = "32 word"
type_synonym u64 = "64 word"

definition le32 :: "u32 \<Rightarrow> u8 list" where
  "le32 w = [ucast w, ucast (drop_bit 8 w), ucast (drop_bit 16 w), ucast (drop_bit 24 w)]"

definition le64 :: "u64 \<Rightarrow> u8 list" where
  "le64 w = [ucast w, ucast (drop_bit 8 w), ucast (drop_bit 16 w), ucast (drop_bit 24 w),
             ucast (drop_bit 32 w), ucast (drop_bit 40 w), ucast (drop_bit 48 w),
             ucast (drop_bit 56 w)]"

fun from_le :: "u8 list \<Rightarrow> nat" where
  "from_le [] = 0"
| "from_le (b # bs) = unat b + 256 * from_le bs"

definition le32_dec :: "u8 list \<Rightarrow> u32" where
  "le32_dec bs = of_nat (from_le bs)"

definition le64_dec :: "u8 list \<Rightarrow> u64" where
  "le64_dec bs = of_nat (from_le bs)"

section \<open>The C stream under the handle\<close>

text \<open>
  A \<^verbatim>\<open>FILE*\<close> is the content of the file on the medium, the position indicator, the mode
  it was opened in (\<^verbatim>\<open>"wb"\<close> or \<^verbatim>\<open>"rb"\<close>), the number of bytes the medium can hold for it,
  the path it is stored under, and, since the program never calls \<^verbatim>\<open>setvbuf\<close>, the stream's
  buffer: the bytes written and not yet passed to the medium, which belong just before the
  position, and the size of the buffer.

  A read that asks for more bytes than are left is a short read and leaves the position at
  the end of the file.  \<^verbatim>\<open>fread\<close> and \<^verbatim>\<open>fwrite\<close> are called with a count of one item, so they
  return 1 or 0; an item of size 0 gives 0.
\<close>

record cfile =
  fbytes :: "u8 list"
  fpos :: nat
  writable :: bool
  quota :: nat
  fname :: string
  wbuf :: "u8 list"
  bufsize :: nat

definition fread :: "cfile \<Rightarrow> nat \<Rightarrow> cfile \<times> u8 list option" where
  "fread f n =
     (if writable f \<or> n = 0 then (f, None)
      else if fpos f + n \<le> length (fbytes f)
        then (f\<lparr>fpos := fpos f + n\<rparr>, Some (take n (drop (fpos f) (fbytes f))))
        else (f\<lparr>fpos := max (fpos f) (length (fbytes f))\<rparr>, None))"

text \<open>Storing \<open>w\<close> at offset \<open>p\<close>; a gap between the end of the file and \<open>p\<close> reads as zeros.\<close>

definition store :: "u8 list \<Rightarrow> nat \<Rightarrow> u8 list \<Rightarrow> u8 list" where
  "store bs p w = take p bs @ replicate (p - length bs) 0 @ w @ drop (p + length w) bs"

text \<open>
  Passing bytes to the medium at an offset: what fits within the quota is stored, and the
  result says whether all of it was.
\<close>

definition put :: "cfile \<Rightarrow> nat \<Rightarrow> u8 list \<Rightarrow> cfile \<times> bool" where
  "put f p bs =
     (let w = take (quota f - p) bs
      in (f\<lparr>fbytes := (if w = [] then fbytes f else store (fbytes f) p w),
            fpos := p + length w\<rparr>,
          length bs \<le> quota f - p))"

text \<open>
  Flushing passes the buffered bytes to the medium and empties the buffer, also when the
  medium does not take them all.
\<close>

definition fflush :: "cfile \<Rightarrow> cfile \<times> bool" where
  "fflush f =
     (if wbuf f = [] then (f, True)
      else put (f\<lparr>wbuf := []\<rparr>) (fpos f - length (wbuf f)) (wbuf f))"

text \<open>
  The C standard leaves to the library when a buffered stream passes its bytes on; here it
  does so when the buffer cannot take the data of a write, at a seek and at the close.  A
  write that fits in the buffer is kept there and succeeds.  Otherwise the buffer is
  flushed and the data is passed to the medium.  So a medium that is full shows in
  \<^verbatim>\<open>fwrite\<close> only for data that does not fit in the buffer; for smaller writes it shows at
  the next flush.
\<close>

definition fwrite :: "cfile \<Rightarrow> u8 list \<Rightarrow> cfile \<times> bool" where
  "fwrite f bs =
     (if \<not> writable f \<or> bs = [] then (f, False)
      else if length (wbuf f) + length bs \<le> bufsize f
        then (f\<lparr>wbuf := wbuf f @ bs, fpos := fpos f + length bs\<rparr>, True)
        else (case fflush f of
                (f1, False) \<Rightarrow> (f1, False)
              | (f1, True) \<Rightarrow> put f1 (fpos f1) bs))"

text \<open>\<^verbatim>\<open>fseek\<close> flushes the buffer before it moves the position, and fails when that fails.\<close>

definition fseek_set :: "cfile \<Rightarrow> nat \<Rightarrow> cfile \<times> bool" where
  "fseek_set f p =
     (case fflush f of
        (f1, False) \<Rightarrow> (f1, False)
      | (f1, True) \<Rightarrow> (f1\<lparr>fpos := p\<rparr>, True))"

definition fseek_cur :: "cfile \<Rightarrow> int \<Rightarrow> cfile \<times> bool" where
  "fseek_cur f d =
     (case fflush f of
        (f1, False) \<Rightarrow> (f1, False)
      | (f1, True) \<Rightarrow>
          if int (fpos f1) + d < 0 then (f1, False)
          else (f1\<lparr>fpos := nat (int (fpos f1) + d)\<rparr>, True))"

record disk =
  files :: "string \<Rightarrow> u8 list option"
  capacity :: nat
  bufsiz :: nat

definition fopen :: "disk \<Rightarrow> string \<Rightarrow> bool \<Rightarrow> disk \<times> cfile option" where
  "fopen d p w =
     (if w then (d\<lparr>files := (files d)(p \<mapsto> [])\<rparr>,
                 Some \<lparr>fbytes = [], fpos = 0, writable = True, quota = capacity d, fname = p,
                       wbuf = [], bufsize = bufsiz d\<rparr>)
      else case files d p of
             None \<Rightarrow> (d, None)
           | Some bs \<Rightarrow> (d, Some \<lparr>fbytes = bs, fpos = 0, writable = False,
                                 quota = capacity d, fname = p, wbuf = [],
                                 bufsize = bufsiz d\<rparr>))"

text \<open>\<^verbatim>\<open>fclose\<close> flushes; the program does not look at what it returns.\<close>

definition fclose :: "disk \<Rightarrow> cfile \<Rightarrow> disk" where
  "fclose d f =
     (if writable f then d\<lparr>files := (files d)(fname f \<mapsto> fbytes (fst (fflush f)))\<rparr> else d)"

section \<open>The codec\<close>

text \<open>
  zlib's \<^verbatim>\<open>compress\<close> and \<^verbatim>\<open>uncompress\<close> are not part of the program.  Each is a function of
  the capacity of the destination and the source bytes that returns its status and the bytes
  it stored at the start of the destination; on \<^verbatim>\<open>Z_OK\<close> their number is what it leaves in
  \<^verbatim>\<open>*destLen\<close>.
\<close>

record codec =
  compress :: "nat \<Rightarrow> u8 list \<Rightarrow> u32 \<times> u8 list"
  uncompress :: "nat \<Rightarrow> u8 list \<Rightarrow> u32 \<times> u8 list"

definition Z_OK :: u32 where
  "Z_OK = 0"

section \<open>The archive handle\<close>

text \<open>
  \<open>chunk\<close> is the content of the buffer \<^verbatim>\<open>chunk\<close> points to, \<open>[]\<close> for \<^verbatim>\<open>nullptr\<close>.  The
  content of a buffer fresh from \<^verbatim>\<open>new u8[maxChunkSize]\<close> is indeterminate; it is taken as
  zeros.  \<open>file_rz\<close> and \<open>size_rz\<close> are the members \<^verbatim>\<open>file\<close> and \<^verbatim>\<open>size\<close>.
\<close>

record RZipFile =
  file_rz :: "cfile option"
  size_rz :: u64
  maxChunkSize :: u32
  chunk :: "u8 list"
  chunkSize :: u32
  chunkIndex :: u32
  writing :: bool

datatype error = VerifyFailed

datatype 'a iter = Break 'a | Next 'a

definition RZipHeader :: "u8 list" where
  "RZipHeader = [0x23, 0x52, 0x5A, 0x49, 0x50, 0x76, 0x01, 0x23]"

text \<open>\<^verbatim>\<open>memcpy(dst + p, src, |src|)\<close> on the content of \<open>dst\<close>.\<close>

definition memcpy :: "u8 list \<Rightarrow> nat \<Rightarrow> u8 list \<Rightarrow> u8 list" where
  "memcpy dst p src = take p dst @ src @ drop (p + length src) dst"

subsection \<open>Close\<close>

definition Close :: "disk \<Rightarrow> RZipFile \<Rightarrow> disk \<times> RZipFile" where
  "Close d h =
     (case file_rz h of
        None \<Rightarrow> (d, h)
      | Some f \<Rightarrow> (fclose d f, h\<lparr>file_rz := None, chunk := []\<rparr>))"

subsection \<open>Open\<close>

text \<open>
  The result is the disk, the value returned and the handle.  The conditions of the header
  check are evaluated left to right and stop at the first that holds.
\<close>

definition Open_read :: "disk \<Rightarrow> RZipFile \<Rightarrow> cfile \<Rightarrow> disk \<times> bool \<times> RZipFile" where
  "Open_read d h f0 =
     (case fread f0 8 of
        (f1, None) \<Rightarrow> (let (d', h') = Close d (h\<lparr>file_rz := Some f1\<rparr>) in (d', False, h'))
      | (f1, Some header) \<Rightarrow>
          if header \<noteq> RZipHeader
          then (let (d', h') = Close d (h\<lparr>file_rz := Some f1\<rparr>) in (d', False, h'))
          else
           (case fread f1 4 of
              (f2, None) \<Rightarrow> (let (d', h') = Close d (h\<lparr>file_rz := Some f2\<rparr>) in (d', False, h'))
            | (f2, Some mcs) \<Rightarrow>
               (case fread f2 8 of
                  (f3, None) \<Rightarrow>
                    (let (d', h') = Close d (h\<lparr>file_rz := Some f3, maxChunkSize := le32_dec mcs\<rparr>)
                     in (d', False, h'))
                | (f3, Some sz) \<Rightarrow>
                    (let raw = le64_dec sz;
                         legacy = (drop_bit 32 raw \<noteq> 0);
                         size' = (if legacy then raw AND 0xffffffff else raw);
                         f4 = (if legacy then fst (fseek_cur f3 (- 4)) else f3)
                     in (d, True,
                         h\<lparr>file_rz := Some f4, size_rz := size', maxChunkSize := le32_dec mcs,
                           chunk := replicate (unat (le32_dec mcs)) 0,
                           chunkIndex := 0, chunkSize := 0, writing := False\<rparr>)))))"

definition Open_write :: "disk \<Rightarrow> RZipFile \<Rightarrow> cfile \<Rightarrow> disk \<times> bool \<times> RZipFile" where
  "Open_write d h f0 =
     (let h1 = h\<lparr>writing := True, size_rz := 0, maxChunkSize := 1024 * 1024\<rparr>
      in case fwrite f0 RZipHeader of
           (f1, False) \<Rightarrow> (let (d', h') = Close d (h1\<lparr>file_rz := Some f1\<rparr>) in (d', False, h'))
         | (f1, True) \<Rightarrow>
            (case fwrite f1 (le32 (maxChunkSize h1)) of
               (f2, False) \<Rightarrow> (let (d', h') = Close d (h1\<lparr>file_rz := Some f2\<rparr>) in (d', False, h'))
             | (f2, True) \<Rightarrow>
                (case fseek_cur f2 8 of
                   (f3, False) \<Rightarrow> (let (d', h') = Close d (h1\<lparr>file_rz := Some f3\<rparr>) in (d', False, h'))
                 | (f3, True) \<Rightarrow> (d, True, h1\<lparr>file_rz := Some f3\<rparr>))))"

definition Open :: "disk \<Rightarrow> RZipFile \<Rightarrow> string \<Rightarrow> bool \<Rightarrow> error + disk \<times> bool \<times> RZipFile" where
  "Open d h path write =
     (if file_rz h \<noteq> None then Inl VerifyFailed
      else case fopen d path write of
             (d', None) \<Rightarrow> Inr (d', False, h)
           | (d', Some f0) \<Rightarrow>
               Inr (if \<not> write then Open_read d' h f0 else Open_write d' h f0))"

subsection \<open>Read\<close>

text \<open>
  One pass through the body of the \<^verbatim>\<open>while (rv < length)\<close> loop.  \<open>Break\<close> is a
  \<^verbatim>\<open>break\<close>; \<open>Next\<close> is the end of the body or a \<^verbatim>\<open>continue\<close>.  The stream is carried
  beside the handle, since \<^verbatim>\<open>verify(file != nullptr)\<close> has passed.  The destination pointer
  \<^verbatim>\<open>p\<close> is \<^verbatim>\<open>data + rv\<close> throughout: both start at 0 and advance by \<^verbatim>\<open>l\<close> together.
\<close>

definition Read_body ::
  "codec \<Rightarrow> RZipFile \<Rightarrow> cfile \<Rightarrow> u8 list \<Rightarrow> u32 \<Rightarrow> u32 \<Rightarrow> (RZipFile \<times> cfile \<times> u8 list \<times> u32) iter"
where
  "Read_body cd h f data len rv =
     (if chunkIndex h = chunkSize h then
        (let h1 = h\<lparr>chunkSize := 0, chunkIndex := 0\<rparr> in
         case fread f 4 of
           (f1, None) \<Rightarrow> Break (h1, f1, data, rv)
         | (f1, Some zs) \<Rightarrow>
            (let zippedSize = le32_dec zs in
             if zippedSize = 0 then Next (h1, f1, data, rv)
             else
              (case fread f1 (unat zippedSize) of
                 (f2, None) \<Rightarrow> Break (h1, f2, data, rv)
               | (f2, Some zipped) \<Rightarrow>
                  (case uncompress cd (unat (maxChunkSize h1)) zipped of
                     (rc, out) \<Rightarrow>
                      (let h2 = h1\<lparr>chunk := out @ drop (length out) (chunk h1)\<rparr> in
                       if rc \<noteq> Z_OK then Break (h2, f2, data, rv)
                       else
                        (let h3 = h2\<lparr>chunkSize := of_nat (length out)\<rparr>;
                             l = min (chunkSize h3 - chunkIndex h3) (len - rv)
                         in Next (h3\<lparr>chunkIndex := chunkIndex h3 + l\<rparr>, f2,
                                  memcpy data (unat rv)
                                    (take (unat l) (drop (unat (chunkIndex h3)) (chunk h3))),
                                  rv + l)))))))
      else
        (let l = min (chunkSize h - chunkIndex h) (len - rv)
         in Next (h\<lparr>chunkIndex := chunkIndex h + l\<rparr>, f,
                  memcpy data (unat rv) (take (unat l) (drop (unat (chunkIndex h)) (chunk h))),
                  rv + l)))"

function Read_loop ::
  "codec \<Rightarrow> RZipFile \<Rightarrow> cfile \<Rightarrow> u8 list \<Rightarrow> u32 \<Rightarrow> u32 \<Rightarrow> RZipFile \<times> cfile \<times> u8 list \<times> u32"
where
  "Read_loop cd h f data len rv =
     (if rv < len then
        (case Read_body cd h f data len rv of
           Break r \<Rightarrow> r
         | Next (h', f', data', rv') \<Rightarrow> Read_loop cd h' f' data' len rv')
      else (h, f, data, rv))"
  by pat_completeness auto

definition Read ::
  "codec \<Rightarrow> RZipFile \<Rightarrow> u8 list \<Rightarrow> u32 \<Rightarrow> error + RZipFile \<times> u8 list \<times> u32"
where
  "Read cd h data len =
     (case file_rz h of
        None \<Rightarrow> Inl VerifyFailed
      | Some f \<Rightarrow>
          (case Read_loop cd h f data len 0 of
             (h', f', data', rv) \<Rightarrow> Inr (h'\<lparr>file_rz := Some f'\<rparr>, data', rv)))"

subsection \<open>Skip\<close>

definition Skip_body ::
  "codec \<Rightarrow> RZipFile \<Rightarrow> cfile \<Rightarrow> u32 \<Rightarrow> u32 \<Rightarrow> (RZipFile \<times> cfile \<times> u32) iter"
where
  "Skip_body cd h f len rv =
     (if chunkIndex h = chunkSize h then
        (let h1 = h\<lparr>chunkSize := 0, chunkIndex := 0\<rparr> in
         case fread f 4 of
           (f1, None) \<Rightarrow> Break (h1, f1, rv)
         | (f1, Some zs) \<Rightarrow>
            (let zippedSize = le32_dec zs in
             if zippedSize = 0 then Next (h1, f1, rv)
             else
              (case fread f1 (unat zippedSize) of
                 (f2, None) \<Rightarrow> Break (h1, f2, rv)
               | (f2, Some zipped) \<Rightarrow>
                  (case uncompress cd (unat (maxChunkSize h1)) zipped of
                     (rc, out) \<Rightarrow>
                      (let h2 = h1\<lparr>chunk := out @ drop (length out) (chunk h1)\<rparr> in
                       if rc \<noteq> Z_OK then Break (h2, f2, rv)
                       else
                        (let h3 = h2\<lparr>chunkSize := of_nat (length out)\<rparr>;
                             l = min (chunkSize h3 - chunkIndex h3) (len - rv)
                         in Next (h3\<lparr>chunkIndex := chunkIndex h3 + l\<rparr>, f2, rv + l)))))))
      else
        (let l = min (chunkSize h - chunkIndex h) (len - rv)
         in Next (h\<lparr>chunkIndex := chunkIndex h + l\<rparr>, f, rv + l)))"

function Skip_loop ::
  "codec \<Rightarrow> RZipFile \<Rightarrow> cfile \<Rightarrow> u32 \<Rightarrow> u32 \<Rightarrow> RZipFile \<times> cfile \<times> u32"
where
  "Skip_loop cd h f len rv =
     (if rv < len then
        (case Skip_body cd h f len rv of
           Break r \<Rightarrow> r
         | Next (h', f', rv') \<Rightarrow> Skip_loop cd h' f' len rv')
      else (h, f, rv))"
  by pat_completeness auto

definition Skip :: "codec \<Rightarrow> RZipFile \<Rightarrow> u32 \<Rightarrow> error + RZipFile \<times> u32" where
  "Skip cd h len =
     (case file_rz h of
        None \<Rightarrow> Inl VerifyFailed
      | Some f \<Rightarrow>
          (case Skip_loop cd h f len 0 of
             (h', f', rv) \<Rightarrow> Inr (h'\<lparr>file_rz := Some f'\<rparr>, rv)))"

subsection \<open>Write\<close>

text \<open>
  The source pointer \<^verbatim>\<open>p\<close> is \<^verbatim>\<open>data + rv\<close> throughout.  \<^verbatim>\<open>maxZippedSize\<close> is computed in
  32 bits.  Each of the three \<^verbatim>\<open>verify\<close> calls after the loop ends the process when it
  fails; \<^verbatim>\<open>ftell\<close> gives the position indicator.
\<close>

definition Write_body ::
  "codec \<Rightarrow> RZipFile \<Rightarrow> cfile \<Rightarrow> u8 list \<Rightarrow> u32 \<Rightarrow> u32 \<Rightarrow> (RZipFile \<times> cfile \<times> u32) iter"
where
  "Write_body cd h f data len rv =
     (let maxZippedSize = maxChunkSize h + maxChunkSize h div 1000 + 12;
          uncompressedSize = min (maxChunkSize h) (len - rv)
      in case compress cd (unat maxZippedSize)
                (take (unat uncompressedSize) (drop (unat rv) data)) of
           (rc, zipped) \<Rightarrow>
             if rc \<noteq> Z_OK then Break (h, f, rv)
             else
              (case fwrite f (le32 (of_nat (length zipped))) of
                 (f1, False) \<Rightarrow> Break (h, f1, rv)
               | (f1, True) \<Rightarrow>
                  (case fwrite f1 zipped of
                     (f2, False) \<Rightarrow> Break (h, f2, rv)
                   | (f2, True) \<Rightarrow>
                       Next (h\<lparr>size_rz := size_rz h + ucast uncompressedSize\<rparr>, f2,
                             rv + uncompressedSize))))"

function Write_loop ::
  "codec \<Rightarrow> RZipFile \<Rightarrow> cfile \<Rightarrow> u8 list \<Rightarrow> u32 \<Rightarrow> u32 \<Rightarrow> RZipFile \<times> cfile \<times> u32"
where
  "Write_loop cd h f data len rv =
     (if rv < len then
        (case Write_body cd h f data len rv of
           Break r \<Rightarrow> r
         | Next (h', f', rv') \<Rightarrow> Write_loop cd h' f' data len rv')
      else (h, f, rv))"
  by pat_completeness auto

definition Write ::
  "codec \<Rightarrow> RZipFile \<Rightarrow> u8 list \<Rightarrow> u32 \<Rightarrow> error + RZipFile \<times> u32"
where
  "Write cd h data len =
     (case file_rz h of
        None \<Rightarrow> Inl VerifyFailed
      | Some f \<Rightarrow>
          (case Write_loop cd h f data len 0 of
             (h1, f1, rv) \<Rightarrow>
               (let pos = fpos f1 in
                case fseek_set f1 (length RZipHeader + 4) of
                  (f2, False) \<Rightarrow> Inl VerifyFailed
                | (f2, True) \<Rightarrow>
                    (case fwrite f2 (le64 (size_rz h1)) of
                       (f3, False) \<Rightarrow> Inl VerifyFailed
                     | (f3, True) \<Rightarrow>
                         (case fseek_set f3 pos of
                            (f4, False) \<Rightarrow> Inl VerifyFailed
                          | (f4, True) \<Rightarrow> Inr (h1\<lparr>file_rz := Some f4\<rparr>, rv))))))"

section \<open>A stored-block codec and sample inputs\<close>

text \<open>
  A codec to run the program on: the compressed form of a block is the byte \<open>0x78\<close>
  followed by the block.  Like zlib it reports \<^verbatim>\<open>Z_BUF_ERROR\<close> (-5) when the destination is
  too small and \<^verbatim>\<open>Z_DATA_ERROR\<close> (-3) on input it did not produce.
\<close>

definition stored_compress :: "nat \<Rightarrow> u8 list \<Rightarrow> u32 \<times> u8 list" where
  "stored_compress cap src = (if length src + 1 \<le> cap then (Z_OK, 0x78 # src) else (- 5, []))"

definition stored_uncompress :: "nat \<Rightarrow> u8 list \<Rightarrow> u32 \<times> u8 list" where
  "stored_uncompress cap z =
     (case z of
        [] \<Rightarrow> (- 3, [])
      | b # d \<Rightarrow> if b \<noteq> 0x78 then (- 3, [])
                 else if length d \<le> cap then (Z_OK, d) else (- 5, take cap d))"

definition stored_codec :: codec where
  "stored_codec = \<lparr>compress = stored_compress, uncompress = stored_uncompress\<rparr>"

text \<open>
  Modelled from the spec: the declaration of the class is not under src/.  A handle that was
  never opened has no stream, no buffer and zeroed counters.
\<close>

definition closed_handle :: RZipFile where
  "closed_handle = \<lparr>file_rz = None, size_rz = 0, maxChunkSize = 0, chunk = [],
                     chunkSize = 0, chunkIndex = 0, writing = False\<rparr>"

text \<open>
  An archive with a maximum chunk size of 16 and two frames, holding the blocks
  \<open>[1, 2, 3]\<close> and \<open>[4, 5]\<close>.
\<close>

definition sample_archive :: "u8 list" where
  "sample_archive =
     RZipHeader @ le32 16 @ le64 5 @ le32 4 @ [0x78, 1, 2, 3] @ le32 3 @ [0x78, 4, 5]"

definition sample_disk :: disk where
  "sample_disk = \<lparr>files = [''a.state'' \<mapsto> sample_archive], capacity = 4096, bufsiz = 4096\<rparr>"

text \<open>Forgetting the destination in the state of the read loop.\<close>

definition drop_data :: "RZipFile \<times> cfile \<times> u8 list \<times> u32 \<Rightarrow> RZipFile \<times> cfile \<times> u32" where
  "drop_data r = (case r of (h, f, d, rv) \<Rightarrow> (h, f, rv))"

section \<open>Notions used in the statements\<close>

text \<open>The invariant of the reader's buffer: offset, fill and capacity.\<close>

definition chunk_inv :: "RZipFile \<Rightarrow> bool" where
  "chunk_inv h = (chunkIndex h \<le> chunkSize h \<and> chunkSize h \<le> maxChunkSize h)"

text \<open>What zlib promises of \<^verbatim>\<open>uncompress\<close>: it stores no more than the destination holds.\<close>

definition uncompress_bounded :: "codec \<Rightarrow> bool" where
  "uncompress_bounded cd = (\<forall>cap z. length (snd (uncompress cd cap z)) \<le> cap)"

text \<open>
  Pulling the next frame fails: the read of its length is short, or the length is not zero
  and the read of its payload is short or the codec's status is not \<^verbatim>\<open>Z_OK\<close>.
\<close>

definition frame_failure :: "codec \<Rightarrow> RZipFile \<Rightarrow> cfile \<Rightarrow> bool" where
  "frame_failure cd h f =
     (case fread f 4 of
        (f1, None) \<Rightarrow> True
      | (f1, Some zs) \<Rightarrow>
          le32_dec zs \<noteq> 0 \<and>
          (case fread f1 (unat (le32_dec zs)) of
             (f2, None) \<Rightarrow> True
           | (f2, Some zipped) \<Rightarrow> fst (uncompress cd (unat (maxChunkSize h)) zipped) \<noteq> Z_OK))"

text \<open>Two calls in a row; the result is the handle, the second destination and both counts.\<close>

definition Skip_then_Read ::
  "codec \<Rightarrow> RZipFile \<Rightarrow> u32 \<Rightarrow> u8 list \<Rightarrow> u32 \<Rightarrow> error + RZipFile \<times> u8 list \<times> u32 \<times> u32"
where
  "Skip_then_Read cd h n dst m =
     (case Skip cd h n of
        Inl e \<Rightarrow> Inl e
      | Inr (h1, r1) \<Rightarrow>
          (case Read cd h1 dst m of
             Inl e \<Rightarrow> Inl e
           | Inr (h2, dst', r2) \<Rightarrow> Inr (h2, dst', r1, r2)))"

definition Read_then_Read ::
  "codec \<Rightarrow> RZipFile \<Rightarrow> u8 list \<Rightarrow> u32 \<Rightarrow> u8 list \<Rightarrow> u32 \<Rightarrow>
     error + RZipFile \<times> u8 list \<times> u32 \<times> u32"
where
  "Read_then_Read cd h scratch n dst m =
     (case Read cd h scratch n of
        Inl e \<Rightarrow> Inl e
      | Inr (h1, scratch', r1) \<Rightarrow>
          (case Read cd h1 dst m of
             Inl e \<Rightarrow> Inl e
           | Inr (h2, dst', r2) \<Rightarrow> Inr (h2, dst', r1, r2)))"

text \<open>The sample archive, opened for reading.\<close>

definition sample_handle :: RZipFile where
  "sample_handle =
     (case Open sample_disk closed_handle ''a.state'' False of
        Inr (d, b, h) \<Rightarrow> h
      | Inl e \<Rightarrow> closed_handle)"

text \<open>
  An archive whose size field has four bytes, holding one frame with the block \<open>abcde\<close>.
\<close>

definition legacy_archive :: "u8 list" where
  "legacy_archive =
     RZipHeader @ le32 1048576 @ le32 5 @ le32 6 @ [0x78, 0x61, 0x62, 0x63, 0x64, 0x65]"

definition legacy_disk :: disk where
  "legacy_disk = \<lparr>files = [''old.state'' \<mapsto> legacy_archive], capacity = 4096, bufsiz = 4096\<rparr>"

text \<open>
  The sample archive cut off inside the payload of its second frame, opened for reading, and
  the handle after three bytes have been read from it.
\<close>

definition truncated_disk :: disk where
  "truncated_disk = \<lparr>files = [''a.state'' \<mapsto> take 33 sample_archive], capacity = 4096, bufsiz = 4096\<rparr>"

definition truncated_handle :: RZipFile where
  "truncated_handle =
     (case Open truncated_disk closed_handle ''a.state'' False of
        Inr (d, b, h) \<Rightarrow> h
      | Inl e \<Rightarrow> closed_handle)"

definition truncated_handle3 :: RZipFile where
  "truncated_handle3 =
     (case Read stored_codec truncated_handle [9, 9, 9] 3 of
        Inr (h, d, n) \<Rightarrow> h
      | Inl e \<Rightarrow> closed_handle)"

definition stream_of :: "RZipFile \<Rightarrow> cfile" where
  "stream_of h =
     (case file_rz h of
        Some f \<Rightarrow> f
      | None \<Rightarrow> \<lparr>fbytes = [], fpos = 0, writable = False, quota = 0, fname = [],
                   wbuf = [], bufsize = 0\<rparr>)"

section \<open>Notions used in the statements about the writer\<close>

text \<open>Write calls in a row; the result is the handle and the values returned.\<close>

fun Writes :: "codec \<Rightarrow> RZipFile \<Rightarrow> (u8 list \<times> u32) list \<Rightarrow> error + RZipFile \<times> u32 list" where
  "Writes cd h [] = Inr (h, [])"
| "Writes cd h ((data, len) # ws) =
     (case Write cd h data len of
        Inl e \<Rightarrow> Inl e
      | Inr (h', n) \<Rightarrow>
          (case Writes cd h' ws of
             Inl e \<Rightarrow> Inl e
           | Inr (h'', ns) \<Rightarrow> Inr (h'', n # ns)))"

text \<open>The total-size field of the header: the eight bytes at offset 12 of the stream.\<close>

definition size_field :: "RZipFile \<Rightarrow> u8 list" where
  "size_field h = take 8 (drop 12 (fbytes (stream_of h)))"

text \<open>A disk with no files, and what Open for writing, Close, Open for reading do on it.\<close>

definition empty_disk :: disk where
  "empty_disk = \<lparr>files = Map.empty, capacity = 4096, bufsiz = 4096\<rparr>"

definition empty_round_trip :: "error + u8 list option \<times> bool \<times> bool" where
  "empty_round_trip =
     (case Open empty_disk closed_handle ''e.state'' True of
        Inl e \<Rightarrow> Inl e
      | Inr (d1, b1, h1) \<Rightarrow>
          (case Close d1 h1 of
             (d2, h2) \<Rightarrow>
               (case Open d2 h2 ''e.state'' False of
                  Inl e \<Rightarrow> Inl e
                | Inr (d3, b3, h3) \<Rightarrow> Inr (files d2 ''e.state'', b1, b3))))"

text \<open>
  A disk on which a file can hold 32 bytes, and the handle that Open for writing gives
  there.
\<close>

definition small_disk :: disk where
  "small_disk = \<lparr>files = Map.empty, capacity = 32, bufsiz = 4096\<rparr>"

definition small_write_handle :: RZipFile where
  "small_write_handle =
     closed_handle\<lparr>writing := True, size_rz := 0, maxChunkSize := 1048576,
       file_rz := Some \<lparr>fbytes = RZipHeader @ le32 1048576, fpos = 20, writable = True,
                        quota = 32, fname = ''w.state'', wbuf = [],
                        bufsize = 4096\<rparr>\<rparr>"


text \<open>
  A disk on which a file can hold 100 bytes, with a stream buffer of 256 bytes, and the
  handle that Open for writing gives there.
\<close>

definition tight_disk :: disk where
  "tight_disk = \<lparr>files = Map.empty, capacity = 100, bufsiz = 256\<rparr>"

definition tight_write_handle :: RZipFile where
  "tight_write_handle =
     closed_handle\<lparr>writing := True, size_rz := 0, maxChunkSize := 1048576,
       file_rz := Some \<lparr>fbytes = RZipHeader @ le32 1048576, fpos = 20, writable = True,
                        quota = 100, fname = ''t.state'', wbuf = [],
                        bufsize = 256\<rparr>\<rparr>"

text \<open>A codec whose \<^verbatim>\<open>compress\<close> is out of memory: it reports \<^verbatim>\<open>Z_MEM_ERROR\<close> (-4).\<close>

definition failing_codec :: codec where
  "failing_codec = \<lparr>compress = (\<lambda>cap src. (- 4, [])), uncompress = stored_uncompress\<rparr>"
section \<open>The layout of an archive\<close>

text \<open>A chunk frame on disk: the length of the payload in four bytes, then the payload.\<close>

definition frame :: "u8 list \<Rightarrow> u8 list" where
  "frame z = le32 (of_nat (length z)) @ z"

text \<open>
  The chunking the spec describes: consecutive blocks of the maximum chunk size, the last
  one holding what remains.
\<close>

fun chunks_of :: "nat \<Rightarrow> u8 list \<Rightarrow> u8 list list" where
  "chunks_of m xs = (if m = 0 \<or> xs = [] then [] else take m xs # chunks_of m (drop m xs))"

text \<open>
  What \<^verbatim>\<open>compress\<close> stores for a block when the handle's maximum chunk size is \<open>m\<close>: the
  capacity it is given is \<^verbatim>\<open>maxZippedSize\<close>.
\<close>

definition zipped_of :: "codec \<Rightarrow> u32 \<Rightarrow> u8 list \<Rightarrow> u8 list" where
  "zipped_of cd m c = snd (compress cd (unat (m + m div 1000 + 12)) c)"

text \<open>
  What the file holds once the buffer has been passed to the medium: the buffered bytes end
  at the position.
\<close>

definition contents :: "cfile \<Rightarrow> u8 list" where
  "contents f =
     (if wbuf f = [] then fbytes f
      else store (fbytes f) (fpos f - length (wbuf f)) (wbuf f))"

text \<open>
  A stream in which, counting the buffered bytes, the first twelve bytes are the magic and
  the maximum chunk size \<open>m\<close>, the bytes from offset 20 on are the frames with payloads
  \<open>zs\<close>, none of them empty, and the position is the end of the last frame.
\<close>

definition stream_layout :: "cfile \<Rightarrow> u32 \<Rightarrow> u8 list list \<Rightarrow> bool" where
  "stream_layout f m zs =
     (length (wbuf f) \<le> fpos f \<and>
      12 \<le> length (contents f) \<and> take 12 (contents f) = RZipHeader @ le32 m \<and>
      drop 20 (contents f) = concat (map frame zs) \<and>
      fpos f = 20 + length (concat (map frame zs)) \<and> [] \<notin> set zs)"

text \<open>Two Write calls of one byte each on the small disk.\<close>

definition two_small_writes :: "error + u8 list \<times> u32 list" where
  "two_small_writes =
     (case Writes stored_codec small_write_handle [([1], 1), ([2], 1)] of
        Inl e \<Rightarrow> Inl e
      | Inr (h', ns) \<Rightarrow> Inr (fbytes (stream_of h'), ns))"

text \<open>
  What zlib promises of the pair: a block of at most \<open>m\<close> bytes that was compressed by the
  writer decompresses, with capacity \<open>m\<close>, to itself.
\<close>

definition codec_inverse :: "codec \<Rightarrow> u32 \<Rightarrow> bool" where
  "codec_inverse cd m =
     (\<forall>c. length c \<le> unat m \<longrightarrow> uncompress cd (unat m) (zipped_of cd m c) = (Z_OK, c))"

section \<open>Notions used in the statements about sequences of calls\<close>

text \<open>What is left of a stream from its position on.\<close>

definition rest_of :: "cfile \<Rightarrow> u8 list" where
  "rest_of f = drop (fpos f) (fbytes f)"

text \<open>
  Calls on a read handle and what the caller observes of each: the destination and the
  value returned for Read, the value returned for Skip.
\<close>

datatype op = ReadOp "u8 list" u32 | SkipOp u32

datatype obs = ReadObs "u8 list" u32 | SkipObs u32

fun run_ops :: "codec \<Rightarrow> RZipFile \<Rightarrow> op list \<Rightarrow> error + RZipFile \<times> obs list" where
  "run_ops cd h [] = Inr (h, [])"
| "run_ops cd h (ReadOp data len # ops) =
     (case Read cd h data len of
        Inl e \<Rightarrow> Inl e
      | Inr (h', data', n) \<Rightarrow>
          (case run_ops cd h' ops of
             Inl e \<Rightarrow> Inl e
           | Inr (h'', os) \<Rightarrow> Inr (h'', ReadObs data' n # os)))"
| "run_ops cd h (SkipOp len # ops) =
     (case Skip cd h len of
        Inl e \<Rightarrow> Inl e
      | Inr (h', n) \<Rightarrow>
          (case run_ops cd h' ops of
             Inl e \<Rightarrow> Inl e
           | Inr (h'', os) \<Rightarrow> Inr (h'', SkipObs n # os)))"

definition observations :: "error + RZipFile \<times> obs list \<Rightarrow> error + obs list" where
  "observations r = (case r of Inl e \<Rightarrow> Inl e | Inr (h, os) \<Rightarrow> Inr os)"

text \<open>Two streams open for reading with the same bytes ahead of them.\<close>

definition same_ahead :: "cfile \<Rightarrow> cfile \<Rightarrow> bool" where
  "same_ahead f1 f2 = (\<not> writable f1 \<and> \<not> writable f2 \<and> rest_of f1 = rest_of f2)"

text \<open>
  Two streams open for reading that differ by a zero-length frame: either the first has
  frames with payloads \<open>zs\<close> and then \<open>rest\<close> ahead of it and the second has the same with a
  zero-length frame between them, or the zero-length frame is behind both and the same
  bytes are ahead.
\<close>

definition zero_frame_inserted :: "u8 list \<Rightarrow> cfile \<Rightarrow> cfile \<Rightarrow> bool" where
  "zero_frame_inserted rest f1 f2 =
     (\<not> writable f1 \<and> \<not> writable f2 \<and>
      ((\<exists>zs. (\<forall>z\<in>set zs. length z < 2 ^ 32) \<and>
             rest_of f1 = concat (map frame zs) @ rest \<and>
             rest_of f2 = concat (map frame zs) @ frame [] @ rest) \<or>
       rest_of f1 = rest_of f2))"

text \<open>The sample archive with a zero-length frame between its two frames.\<close>

definition padded_archive :: "u8 list" where
  "padded_archive =
     RZipHeader @ le32 16 @ le64 5 @ le32 4 @ [0x78, 1, 2, 3] @ le32 0 @ le32 3 @ [0x78, 4, 5]"

definition padded_disk :: disk where
  "padded_disk = \<lparr>files = [''a.state'' \<mapsto> padded_archive], capacity = 4096, bufsiz = 4096\<rparr>"

definition padded_handle :: RZipFile where
  "padded_handle =
     (case Open padded_disk closed_handle ''a.state'' False of
        Inr (d, b, h) \<Rightarrow> h
      | Inl e \<Rightarrow> closed_handle)"

section \<open>Notions used in the statements about reading back\<close>

text \<open>Read calls in a row; the result is the handle and the bytes each call produced.\<close>

fun Reads :: "codec \<Rightarrow> RZipFile \<Rightarrow> (u8 list \<times> u32) list \<Rightarrow> error + RZipFile \<times> u8 list list" where
  "Reads cd h [] = Inr (h, [])"
| "Reads cd h ((data, len) # rs) =
     (case Read cd h data len of
        Inl e \<Rightarrow> Inl e
      | Inr (h', data', n) \<Rightarrow>
          (case Reads cd h' rs of
             Inl e \<Rightarrow> Inl e
           | Inr (h'', outs) \<Rightarrow> Inr (h'', take (unat n) data' # outs)))"

text \<open>What zlib promises of \<^verbatim>\<open>compress\<close>: it stores no more than the destination holds.\<close>

definition compress_bounded :: "codec \<Rightarrow> bool" where
  "compress_bounded cd = (\<forall>cap src. length (snd (compress cd cap src)) \<le> cap)"

text \<open>The bytes of the buffer that have been decompressed and not yet handed out.\<close>

definition pending :: "RZipFile \<Rightarrow> u8 list" where
  "pending h =
     take (unat (chunkSize h) - unat (chunkIndex h)) (drop (unat (chunkIndex h)) (chunk h))"

text \<open>
  Blocks whose compressed forms make frames the reader can take in: not empty, shorter
  than \<open>2 ^ 32\<close>, and decompressing to the block within the maximum chunk size.
\<close>

definition good_blocks :: "codec \<Rightarrow> u32 \<Rightarrow> u8 list list \<Rightarrow> bool" where
  "good_blocks cd m cs =
     (\<forall>c\<in>set cs. zipped_of cd m c \<noteq> [] \<and> length (zipped_of cd m c) < 2 ^ 32 \<and>
                 length c \<le> unat m \<and>
                 uncompress cd (unat m) (zipped_of cd m c) = (Z_OK, c))"

text \<open>
  A reader whose stream has exactly the frames of the blocks \<open>cs\<close> ahead, and whose
  buffer holds its fill.
\<close>

definition reader_at :: "codec \<Rightarrow> RZipFile \<Rightarrow> cfile \<Rightarrow> u8 list list \<Rightarrow> bool" where
  "reader_at cd h f cs =
     (\<not> writable f \<and>
      rest_of f = concat (map (\<lambda>c. frame (zipped_of cd (maxChunkSize h) c)) cs) \<and>
      good_blocks cd (maxChunkSize h) cs \<and>
      chunkIndex h \<le> chunkSize h \<and> unat (chunkSize h) \<le> length (chunk h))"

text \<open>
  A codec that stores a block of one repeated byte as the byte \<open>0x52\<close>, the length of the
  block in four bytes and the byte, and any other block as the stored-block codec does.
\<close>

definition run_compress :: "nat \<Rightarrow> u8 list \<Rightarrow> u32 \<times> u8 list" where
  "run_compress cap src =
     (if src \<noteq> [] \<and> src = replicate (length src) (hd src) \<and> 6 \<le> cap \<and> length src < 2 ^ 32
      then (Z_OK, 0x52 # le32 (of_nat (length src)) @ [hd src])
      else stored_compress cap src)"

definition run_uncompress :: "nat \<Rightarrow> u8 list \<Rightarrow> u32 \<times> u8 list" where
  "run_uncompress cap z =
     (if length z = 6 \<and> hd z = 0x52
      then (let n = unat (le32_dec (take 4 (tl z)))
            in if n \<le> cap then (Z_OK, replicate n (last z)) else (- 5, []))
      else stored_uncompress cap z)"

definition run_codec :: codec where
  "run_codec = \<lparr>compress = run_compress, uncompress = run_uncompress\<rparr>"

text \<open>
  A disk with room for a megabyte, a block of \<open>2 ^ 20\<close> zeros, and what comes of writing
  the block 4096 times, \<open>2 ^ 32\<close> bytes in all, closing, opening for reading and asking
  for the first block: whether every Write call accepted its block, what Open returned, and
  what Read returned.
\<close>

definition big_disk :: disk where
  "big_disk = \<lparr>files = Map.empty, capacity = 1048576, bufsiz = 4096\<rparr>"

definition zero_block :: "u8 list" where
  "zero_block = replicate 1048576 0"

definition big_round_trip :: "error + bool \<times> bool \<times> u32" where
  "big_round_trip =
     (case Open big_disk closed_handle ''b.state'' True of
        Inl e \<Rightarrow> Inl e
      | Inr (d1, b1, h1) \<Rightarrow>
          (case Writes run_codec h1 (replicate 4096 (zero_block, 1048576)) of
             Inl e \<Rightarrow> Inl e
           | Inr (h2, ns) \<Rightarrow>
               (case Close d1 h2 of
                  (d2, h3) \<Rightarrow>
                    (case Open d2 h3 ''b.state'' False of
                       Inl e \<Rightarrow> Inl e
                     | Inr (d3, b3, h4) \<Rightarrow>
                         (case Read run_codec h4 zero_block 1048576 of
                            Inl e \<Rightarrow> Inl e
                          | Inr (h5, data', n) \<Rightarrow>
                              Inr (ns = replicate 4096 1048576, b3, n))))))"

section \<open>Termination of the loops\<close>

lemma unat_sub_add: "(l::u32) \<le> len - rv \<Longrightarrow> unat (len - (rv + l)) = unat (len - rv) - unat l"
proof -
  assume a: "l \<le> len - rv"
  have "len - (rv + l) = (len - rv) - l" by (simp only: diff_diff_eq)
  then show ?thesis using unat_sub [OF a] by (simp only:)
qed

lemma sub_nz: "(rv::u32) < len \<Longrightarrow> len - rv \<noteq> 0"
  by auto

lemma min_nz: "(a::u32) \<noteq> 0 \<Longrightarrow> rv < len \<Longrightarrow> 0 < unat (min a (len - rv))"
  using sub_nz [of rv len] by (auto simp: min_def unat_gt_0)

lemma fread_Some:
  "fread f n = (f', Some bs) \<Longrightarrow>
     f' = f\<lparr>fpos := fpos f + n\<rparr> \<and> fpos f + n \<le> length (fbytes f) \<and> 0 < n \<and> \<not> writable f \<and>
     bs = take n (drop (fpos f) (fbytes f))"
  by (auto simp: fread_def split: if_splits)

lemma Read_body_Next:
  assumes "Read_body cd h f data len rv = Next (h', f', data', rv')"
  shows "\<exists>l. l \<le> len - rv \<and> rv' = rv + l \<and> fbytes f' = fbytes f \<and> fpos f \<le> fpos f' \<and>
             (fpos f' = fpos f \<longrightarrow> l = min (chunkSize h - chunkIndex h) (len - rv) \<and> chunkIndex h \<noteq> chunkSize h) \<and>
             (fpos f < fpos f' \<longrightarrow> fpos f' \<le> length (fbytes f))"
proof (cases "chunkIndex h = chunkSize h")
  case False
  with assms show ?thesis
    by (auto simp: Read_body_def Let_def)
next
  case True
  show ?thesis
  proof (cases "fread f 4")
    case (Pair f1 r1)
    show ?thesis
    proof (cases r1)
      case None
      with Pair True assms show ?thesis by (simp add: Read_body_def)
    next
      case (Some zs)
      note f1 = fread_Some [OF Pair [unfolded Some]]
      show ?thesis
      proof (cases "le32_dec zs = 0")
        case z: True
        with Pair Some True assms f1 show ?thesis
          by (auto simp: Read_body_def Let_def intro!: exI [of _ 0])
      next
        case nz: False
        show ?thesis
        proof (cases "fread f1 (unat (le32_dec zs))")
          case P2: (Pair f2 r2)
          show ?thesis
          proof (cases r2)
            case None
            with P2 nz Pair Some True assms show ?thesis by (simp add: Read_body_def Let_def)
          next
            case S2: (Some zipped)
            note f2 = fread_Some [OF P2 [unfolded S2]]
            from P2 S2 nz Pair Some True assms f1 f2 show ?thesis
              by (auto simp: Read_body_def Let_def split: prod.splits if_splits)
          qed
        qed
      qed
    qed
  qed
qed

lemma Read_body_measure:
  assumes "rv < len" "Read_body cd h f data len rv = Next (h', f', data', rv')"
  shows "(length (fbytes f') - fpos f') + unat (len - rv') < (length (fbytes f) - fpos f) + unat (len - rv)"
proof -
  from Read_body_Next [OF assms(2)] obtain l where
    l: "l \<le> len - rv" "rv' = rv + l" "fbytes f' = fbytes f" "fpos f \<le> fpos f'"
       "fpos f' = fpos f \<longrightarrow> l = min (chunkSize h - chunkIndex h) (len - rv) \<and> chunkIndex h \<noteq> chunkSize h"
       "fpos f < fpos f' \<longrightarrow> fpos f' \<le> length (fbytes f)"
    by blast
  have u: "unat (len - rv') = unat (len - rv) - unat l"
    unfolding l(2) by (rule unat_sub_add) (rule l(1))
  have le: "unat l \<le> unat (len - rv)" using l(1) by (simp add: word_le_nat_alt)
  show ?thesis
  proof (cases "fpos f' = fpos f")
    case True
    with l(5) have "chunkSize h - chunkIndex h \<noteq> 0" "l = min (chunkSize h - chunkIndex h) (len - rv)"
      by auto
    with min_nz [OF this(1) assms(1)] have "0 < unat l" by simp
    with u le True l(3) show ?thesis by simp
  next
    case False
    with l(4,6) have "fpos f < fpos f'" "fpos f' \<le> length (fbytes f)" by auto
    with u le l(3) show ?thesis by simp
  qed
qed

termination Read_loop
  apply (relation "measure (\<lambda>(cd, h, f, data, len, rv). (length (fbytes f) - fpos f) + unat (len - rv))")
   apply simp
  apply (auto simp add: Read_body_measure)
  done

text \<open>
  The write loop ends because every successful \<^verbatim>\<open>fwrite\<close> either moves the start of the
  unflushed bytes closer to the quota or, leaving it in place, fills more of the buffer.
\<close>

lemma put_True:
  "put f p bs = (f', True) \<Longrightarrow>
     f' = f\<lparr>fbytes := (if bs = [] then fbytes f else store (fbytes f) p bs),
            fpos := p + length bs\<rparr> \<and> length bs \<le> quota f - p"
  by (auto simp: put_def Let_def)

lemma fflush_True:
  "fflush f = (f', True) \<Longrightarrow>
     f' = f\<lparr>fbytes := (if wbuf f = [] then fbytes f
                         else store (fbytes f) (fpos f - length (wbuf f)) (wbuf f)),
            fpos := (if wbuf f = [] then fpos f else fpos f - length (wbuf f) + length (wbuf f)),
            wbuf := []\<rparr> \<and>
     (wbuf f \<noteq> [] \<longrightarrow> length (wbuf f) \<le> quota f - (fpos f - length (wbuf f)))"
  by (auto simp: fflush_def dest!: put_True)

lemma fwrite_True_measure:
  assumes "fwrite f bs = (f', True)"
  shows "quota f' = quota f \<and> bufsize f' = bufsize f \<and>
         (quota f - (fpos f' - length (wbuf f')) < quota f - (fpos f - length (wbuf f)) \<or>
          fpos f' - length (wbuf f') = fpos f - length (wbuf f) \<and>
          bufsize f - length (wbuf f') < bufsize f - length (wbuf f))"
proof -
  from assms have w: "writable f" "bs \<noteq> []" by (auto simp: fwrite_def split: if_splits)
  show ?thesis
  proof (cases "length (wbuf f) + length bs \<le> bufsize f")
    case True
    with assms w have "f' = f\<lparr>wbuf := wbuf f @ bs, fpos := fpos f + length bs\<rparr>"
      by (simp add: fwrite_def)
    moreover have "0 < length bs" using w(2) by simp
    with True have "bufsize f - (length (wbuf f) + length bs) < bufsize f - length (wbuf f)"
      by linarith
    ultimately show ?thesis by simp
  next
    case False
    with assms w obtain f1 where fl: "fflush f = (f1, True)"
      and r: "put f1 (fpos f1) bs = (f', True)"
      by (auto simp: fwrite_def split: prod.splits bool.splits)
    note f1 = fflush_True [OF fl]
    from w(2) have lb: "0 < length bs" by simp
    show ?thesis
    proof (cases "wbuf f = []")
      case e: True
      with f1 have e1: "f1 = f" by simp
      from put_True [OF r] e e1
      have f': "f' = f\<lparr>fbytes := (if bs = [] then fbytes f else store (fbytes f) (fpos f) bs),
                         fpos := fpos f + length bs\<rparr>"
        and le: "length bs \<le> quota f - fpos f" by simp_all
      from lb le have "quota f - (fpos f + length bs) < quota f - fpos f" by linarith
      with f' e show ?thesis by simp
    next
      case ne: False
      with f1 have room: "length (wbuf f) \<le> quota f - (fpos f - length (wbuf f))" by simp
      from ne have pos: "0 < length (wbuf f)" by simp
      from f1 ne have p1: "fpos f1 = fpos f - length (wbuf f) + length (wbuf f)"
        "wbuf f1 = []" "quota f1 = quota f" "bufsize f1 = bufsize f" by simp_all
      define s where "s = fpos f - length (wbuf f)"
      define l where "l = length (wbuf f)"
      from room pos have key: "quota f - (s + l + length bs) < quota f - s"
        unfolding s_def l_def by linarith
      from p1 have p1': "fpos f1 = s + l" unfolding s_def l_def by simp
      from put_True [OF r]
      have "fpos f' - length (wbuf f') = s + l + length bs" "quota f' = quota f"
        "bufsize f' = bufsize f"
        using p1' p1(2,3,4) by simp_all
      with key show ?thesis unfolding s_def [symmetric] by simp
    qed
  qed
qed

lemma Write_body_Next:
  assumes "Write_body cd h f data len rv = Next (h', f', rv')"
  shows "quota f' = quota f \<and> bufsize f' = bufsize f \<and>
         (quota f - (fpos f' - length (wbuf f')) < quota f - (fpos f - length (wbuf f)) \<or>
          fpos f' - length (wbuf f') = fpos f - length (wbuf f) \<and>
          bufsize f - length (wbuf f') < bufsize f - length (wbuf f))"
proof -
  from assms obtain a b f1 where
    1: "fwrite f a = (f1, True)" and 2: "fwrite f1 b = (f', True)"
    by (auto simp: Write_body_def Let_def split: prod.splits if_splits bool.splits)
  define q where "q = quota f"
  define s0 where "s0 = fpos f - length (wbuf f)"
  define s1 where "s1 = fpos f1 - length (wbuf f1)"
  define s2 where "s2 = fpos f' - length (wbuf f')"
  define b0 where "b0 = bufsize f - length (wbuf f)"
  define b1 where "b1 = bufsize f - length (wbuf f1)"
  define b2 where "b2 = bufsize f - length (wbuf f')"
  from fwrite_True_measure [OF 1]
  have a: "quota f1 = q" "bufsize f1 = bufsize f" "q - s1 < q - s0 \<or> s1 = s0 \<and> b1 < b0"
    unfolding q_def s0_def s1_def b0_def b1_def by simp_all
  from fwrite_True_measure [OF 2]
  have b: "quota f' = q" "bufsize f' = bufsize f" "q - s2 < q - s1 \<or> s2 = s1 \<and> b2 < b1"
    unfolding a q_def s1_def s2_def b1_def b2_def by (simp_all add: a [unfolded q_def])
  from a(3) b(3) have "q - s2 < q - s0 \<or> s2 = s0 \<and> b2 < b0" by linarith
  with b(1,2) show ?thesis
    unfolding q_def s0_def s2_def b0_def b2_def by simp
qed

termination Write_loop
  apply (relation "measures [\<lambda>(cd, h, f, data, len, rv). quota f - (fpos f - length (wbuf f)),
                             \<lambda>(cd, h, f, data, len, rv). bufsize f - length (wbuf f)]")
   apply simp
  apply (auto dest!: Write_body_Next)
  done

lemma Skip_body_Read_body:
  "Skip_body cd h f len rv = map_iter drop_data (Read_body cd h f data len rv)"
  by (simp add: Skip_body_def Read_body_def drop_data_def Let_def split: prod.splits option.splits)

lemma Skip_body_measure:
  assumes "rv < len" "Skip_body cd h f len rv = Next (h', f', rv')"
  shows "(length (fbytes f') - fpos f') + unat (len - rv') < (length (fbytes f) - fpos f) + unat (len - rv)"
proof -
  from assms(2) obtain d' where "Read_body cd h f [] len rv = Next (h', f', d', rv')"
    unfolding Skip_body_Read_body [of cd h f len rv "[]"]
    by (cases "Read_body cd h f [] len rv") (auto simp: drop_data_def)
  from Read_body_measure [OF assms(1) this] show ?thesis .
qed

termination Skip_loop
  apply (relation "measure (\<lambda>(cd, h, f, len, rv). (length (fbytes f) - fpos f) + unat (len - rv))")
   apply simp
  apply (auto simp add: Skip_body_measure)
  done

lemma Skip_loop_Read_loop:
  "Skip_loop cd h f len rv = drop_data (Read_loop cd h f data len rv)"
proof (induction cd h f data len rv rule: Read_loop.induct)
  case (1 cd h f data len rv)
  show ?case
  proof (cases "rv < len")
    case False
    then show ?thesis by (simp add: drop_data_def)
  next
    case True
    show ?thesis
    proof (cases "Read_body cd h f data len rv")
      case (Break r)
      with True show ?thesis
        by (simp add: Skip_body_Read_body [of cd h f len rv data])
    next
      case (Next r)
      obtain h' f' d' rv' where r: "r = (h', f', d', rv')" by (cases r) auto
      from "1.IH" True Next r show ?thesis
        by (simp add: Skip_body_Read_body [of cd h f len rv data] drop_data_def)
    qed
  qed
qed

declare Read_loop.simps [simp del] Skip_loop.simps [simp del] Write_loop.simps [simp del]

section \<open>Words and bytes\<close>

lemma hi_bits: "(drop_bit 32 (w::u64) \<noteq> 0) = (2 ^ 32 \<le> unat w)"
proof -
  have "(drop_bit 32 w = 0) = (unat (drop_bit 32 w) = 0)"
    by (simp add: unat_eq_0)
  also have "\<dots> = (unat w div 2 ^ 32 = 0)"
    by (simp add: drop_bit_eq_div unat_div)
  also have "\<dots> = (unat w < 2 ^ 32)"
    by (simp add: div_eq_0_iff)
  finally show ?thesis by auto
qed

lemma lo_bits: "unat ((w::u64) AND 0xffffffff) = unat w mod 2 ^ 32"
proof -
  have "(0xffffffff :: u64) = mask 32" by (simp add: mask_eq_exp_minus_1)
  then have "w AND 0xffffffff = take_bit 32 w" by (simp only: take_bit_eq_mask)
  then show ?thesis by (simp add: take_bit_eq_mod unat_mod)
qed

lemma add_min_le: "(ci::u32) \<le> cs \<Longrightarrow> ci + min (cs - ci) k \<le> cs"
  by (simp add: le_plus')

lemma of_nat_le_word: "n \<le> unat (m::u32) \<Longrightarrow> (of_nat n :: u32) \<le> m"
  by (simp add: le_unat_uoi word_le_nat_alt)

section \<open>Zero-length requests\<close>

text \<open>
  C10.  On an open handle, \<open>Read\<close> with length 0 and \<open>Skip\<close> with length 0 return 0 and
  leave the handle (stream position, buffer, offset and fill) and the destination as
  they were.
\<close>

theorem zero_length_noop:
  "file_rz h \<noteq> None \<Longrightarrow> Read cd h data 0 = Inr (h, data, 0) \<and> Skip cd h 0 = Inr (h, 0)"
  by (auto simp: Read_def Skip_def Read_loop.simps Skip_loop.simps)

theorem zero_length_noop_witness:
  "file_rz sample_handle \<noteq> None \<and>
   Read stored_codec sample_handle [9, 9] 0 = Inr (sample_handle, [9, 9], 0) \<and>
   Skip stored_codec sample_handle 0 = Inr (sample_handle, 0)"
proof -
  have opn: "file_rz sample_handle \<noteq> None" by code_simp
  from zero_length_noop [OF opn, of stored_codec "[9, 9]"] opn show ?thesis by simp
qed

section \<open>Skip against Read\<close>

lemma Skip_eq_Read:
  "Skip cd h n = map_sum id (\<lambda>(h', d', rv). (h', rv)) (Read cd h scratch n)"
  by (simp add: Read_def Skip_def Skip_loop_Read_loop [of cd h _ n 0 scratch] drop_data_def
      split: option.splits prod.splits)

text \<open>
  C2.  \<open>Skip n\<close> followed by \<open>Read m\<close> gives the same handle, the same destination and the
  same two counts as \<open>Read n\<close> into a scratch buffer followed by \<open>Read m\<close>, for every handle
  and all \<open>n\<close> and \<open>m\<close>.
\<close>

theorem Skip_Read_equivalence:
  "Skip_then_Read cd h n dst m = Read_then_Read cd h scratch n dst m"
  unfolding Skip_then_Read_def Read_then_Read_def Skip_eq_Read [of cd h n scratch]
  by (cases "Read cd h scratch n") auto

section \<open>The legacy size rule\<close>

text \<open>
  C3.  Opening for reading a file that starts with the magic, four bytes of maximum chunk
  size and eight more bytes succeeds.  When the eight bytes read as a number with a high
  half that is not zero, the size kept is that number modulo \<open>2 ^ 32\<close> and the stream is
  left at offset 16, four bytes after the start of the size field; otherwise the size is
  the number and the stream is left at offset 20.
\<close>

theorem Open_legacy_size_rule:
  assumes "file_rz h = None"
    and "files d path = Some (RZipHeader @ mcs @ sz @ rest)"
    and "length mcs = 4" and "length sz = 8"
  shows "\<exists>h'. Open d h path False = Inr (d, True, h') \<and>
           (if 2 ^ 32 \<le> unat (le64_dec sz)
            then unat (size_rz h') = unat (le64_dec sz) mod 2 ^ 32 \<and>
                 map_option fpos (file_rz h') = Some 16
            else size_rz h' = le64_dec sz \<and> map_option fpos (file_rz h') = Some 20)"
proof -
  have len: "length RZipHeader = 8" by (simp add: RZipHeader_def)
  let ?f0 = "\<lparr>fbytes = RZipHeader @ mcs @ sz @ rest, fpos = 0, writable = False,
               quota = capacity d, fname = path, wbuf = [], bufsize = bufsiz d\<rparr>"
  have r1: "fread ?f0 8 = (?f0\<lparr>fpos := 8\<rparr>, Some RZipHeader)"
    using len assms(3,4) by (simp add: fread_def)
  have r2: "fread (?f0\<lparr>fpos := 8\<rparr>) 4 = (?f0\<lparr>fpos := 12\<rparr>, Some mcs)"
    using len assms(3,4) by (simp add: fread_def)
  have r3: "fread (?f0\<lparr>fpos := 12\<rparr>) 8 = (?f0\<lparr>fpos := 20\<rparr>, Some sz)"
    using len assms(3,4) by (simp add: fread_def)
  show ?thesis
    using assms(1,2) r1 r2 r3
    by (simp add: Open_def fopen_def Open_read_def Let_def fseek_cur_def fflush_def hi_bits lo_bits)
qed

theorem Open_legacy_size_rule_witness:
  "file_rz closed_handle = None \<and>
   files legacy_disk ''old.state'' =
     Some (RZipHeader @ le32 1048576 @ (le32 5 @ le32 6) @ [0x78, 0x61, 0x62, 0x63, 0x64, 0x65]) \<and>
   (2::nat) ^ 32 \<le> unat (le64_dec (le32 5 @ le32 6)) \<and>
   (\<exists>h'. Open legacy_disk closed_handle ''old.state'' False = Inr (legacy_disk, True, h') \<and>
      unat (size_rz h') = 5 \<and> map_option fpos (file_rz h') = Some 16)"
proof -
  have a: "file_rz closed_handle = None" by (simp add: closed_handle_def)
  have b: "files legacy_disk ''old.state'' =
     Some (RZipHeader @ le32 1048576 @ (le32 5 @ le32 6) @ [0x78, 0x61, 0x62, 0x63, 0x64, 0x65])"
    by (simp add: legacy_disk_def legacy_archive_def)
  have c: "length (le32 1048576) = 4" "length (le32 5 @ le32 6) = 8" by (simp_all add: le32_def)
  have v: "unat (le64_dec (le32 5 @ le32 6)) = 25769803781"
    by (simp add: le64_dec_def le32_def)
  have w: "(2::nat) ^ 32 \<le> 25769803781" "(25769803781::nat) mod 2 ^ 32 = 5" by simp_all
  from Open_legacy_size_rule [OF a b c] obtain h' where
    h: "Open legacy_disk closed_handle ''old.state'' False = Inr (legacy_disk, True, h')"
       "unat (size_rz h') = 5 \<and> map_option fpos (file_rz h') = Some 16"
    unfolding v using w by auto
  show ?thesis using a b h unfolding v using w(1) by blast
qed

section \<open>The invariant of the reader's buffer\<close>

lemma Read_body_inv:
  assumes "uncompress_bounded cd" "chunk_inv h"
    and "Read_body cd h f data len rv = Break (h', f', d', rv') \<or>
         Read_body cd h f data len rv = Next (h', f', d', rv')"
  shows "chunk_inv h' \<and> maxChunkSize h' = maxChunkSize h"
proof -
  have b: "\<And>cap z out rc. uncompress cd cap z = (rc, out) \<Longrightarrow> length out \<le> cap"
    using assms(1) unfolding uncompress_bounded_def by (metis snd_conv)
  show ?thesis
    using assms(2,3)
    by (auto simp: Read_body_def Let_def chunk_inv_def add_min_le
        split: prod.splits option.splits if_splits intro!: of_nat_le_word dest!: b)
qed

lemma Read_loop_inv:
  "uncompress_bounded cd \<Longrightarrow> chunk_inv h \<Longrightarrow> Read_loop cd h f data len rv = (h', f', data', rv') \<Longrightarrow>
     chunk_inv h' \<and> maxChunkSize h' = maxChunkSize h"
proof (induction cd h f data len rv rule: Read_loop.induct)
  case (1 cd h f data len rv)
  note bi = Read_body_inv [OF "1.prems"(1,2), of f data len rv]
  show ?case
  proof (cases "rv < len")
    case False
    with "1.prems"(2,3) show ?thesis by (simp add: Read_loop.simps)
  next
    case True
    show ?thesis
    proof (cases "Read_body cd h f data len rv")
      case (Break r)
      with True "1.prems"(3) have "Read_body cd h f data len rv = Break (h', f', data', rv')"
        by (simp add: Read_loop.simps [of cd h f data len rv])
      then show ?thesis by (rule bi [OF disjI1])
    next
      case (Next r)
      obtain h1 f1 d1 rv1 where r: "r = (h1, f1, d1, rv1)" by (cases r) auto
      from Next r have "Read_body cd h f data len rv = Next (h1, f1, d1, rv1)" by simp
      from bi [OF disjI2, OF this] have i1: "chunk_inv h1" "maxChunkSize h1 = maxChunkSize h" by auto
      from "1.prems"(3) True Next r have "Read_loop cd h1 f1 d1 len rv1 = (h', f', data', rv')"
        by (simp add: Read_loop.simps [of cd h f data len rv])
      with "1.IH" True Next r "1.prems"(1) i1 show ?thesis by simp
    qed
  qed
qed

lemma Open_read_inv:
  "Open d h0 path False = Inr (d', True, h) \<Longrightarrow> chunkIndex h = 0 \<and> chunkSize h = 0"
  by (auto simp: Open_def Open_read_def Close_def Let_def
      split: if_splits prod.splits option.splits)

lemma stored_bounded: "uncompress_bounded stored_codec"
  by (simp add: uncompress_bounded_def stored_codec_def stored_uncompress_def split: list.splits)

text \<open>
  C9.  Provided \<^verbatim>\<open>uncompress\<close> never stores more than its destination holds, offset \<open>\<le>\<close> fill
  \<open>\<le>\<close> maximum chunk size holds after a successful Open for reading and is kept by Read
  and by Skip; and when the offset differs from the fill, a pass through the loop body
  leaves the stream, the buffer and the fill as they are.
\<close>

theorem reader_buffer_invariant:
  assumes "uncompress_bounded cd"
  shows "(Open d h0 path False = Inr (d', True, h) \<longrightarrow> chunk_inv h) \<and>
         (chunk_inv g \<and> Read cd g data len = Inr (g', data', n) \<longrightarrow> chunk_inv g') \<and>
         (chunk_inv g \<and> Skip cd g len = Inr (g'', n') \<longrightarrow> chunk_inv g'') \<and>
         (chunkIndex g \<noteq> chunkSize g \<longrightarrow>
            (\<exists>g1 d1 r1. Read_body cd g f data len rv = Next (g1, f, d1, r1) \<and>
               chunk g1 = chunk g \<and> chunkSize g1 = chunkSize g) \<and>
            (\<exists>g1 r1. Skip_body cd g f len rv = Next (g1, f, r1) \<and>
               chunk g1 = chunk g \<and> chunkSize g1 = chunkSize g))"
proof (intro conjI impI)
  assume "Open d h0 path False = Inr (d', True, h)"
  from Open_read_inv [OF this] show "chunk_inv h" by (simp add: chunk_inv_def)
next
  assume a: "chunk_inv g \<and> Read cd g data len = Inr (g', data', n)"
  then obtain f0 h1 f1 where f0: "file_rz g = Some f0"
    and l: "Read_loop cd g f0 data len 0 = (h1, f1, data', n)" and g': "g' = h1\<lparr>file_rz := Some f1\<rparr>"
    by (auto simp: Read_def split: option.splits prod.splits)
  from Read_loop_inv [OF assms _ l] a g' show "chunk_inv g'" by (auto simp: chunk_inv_def)
next
  assume a: "chunk_inv g \<and> Skip cd g len = Inr (g'', n')"
  then obtain f0 h1 f1 where f0: "file_rz g = Some f0"
    and l: "Skip_loop cd g f0 len 0 = (h1, f1, n')" and g': "g'' = h1\<lparr>file_rz := Some f1\<rparr>"
    by (auto simp: Skip_def split: option.splits prod.splits)
  obtain d1 where "Read_loop cd g f0 [] len 0 = (h1, f1, d1, n')"
    using l unfolding Skip_loop_Read_loop [of cd g f0 len 0 "[]"]
    by (cases "Read_loop cd g f0 [] len 0") (auto simp: drop_data_def)
  from Read_loop_inv [OF assms _ this] a g' show "chunk_inv g''" by (auto simp: chunk_inv_def)
next
  assume "chunkIndex g \<noteq> chunkSize g"
  then show "\<exists>g1 d1 r1. Read_body cd g f data len rv = Next (g1, f, d1, r1) \<and>
               chunk g1 = chunk g \<and> chunkSize g1 = chunkSize g"
    by (simp add: Read_body_def Let_def)
next
  assume "chunkIndex g \<noteq> chunkSize g"
  then show "\<exists>g1 r1. Skip_body cd g f len rv = Next (g1, f, r1) \<and>
               chunk g1 = chunk g \<and> chunkSize g1 = chunkSize g"
    by (simp add: Skip_body_def Let_def)
qed

theorem reader_buffer_invariant_witness:
  "uncompress_bounded stored_codec \<and> chunk_inv sample_handle \<and>
   (\<exists>g' data' n. Read stored_codec sample_handle [9, 9, 9, 9, 9, 9] 4 = Inr (g', data', n) \<and>
      chunk_inv g' \<and> chunkIndex g' = 1 \<and> chunkSize g' = 2 \<and> maxChunkSize g' = 16)"
proof -
  have ci: "chunk_inv sample_handle" by code_simp
  have "case Read stored_codec sample_handle [9, 9, 9, 9, 9, 9] 4 of
          Inr (g', data', n) \<Rightarrow> chunkIndex g' = 1 \<and> chunkSize g' = 2 \<and> maxChunkSize g' = 16
        | Inl e \<Rightarrow> False"
    by code_simp
  then obtain g' data' n where
    r: "Read stored_codec sample_handle [9, 9, 9, 9, 9, 9] 4 = Inr (g', data', n)"
       "chunkIndex g' = 1 \<and> chunkSize g' = 2 \<and> maxChunkSize g' = 16"
    by (auto split: sum.splits)
  from reader_buffer_invariant [OF stored_bounded, THEN conjunct2, THEN conjunct1,
      of sample_handle "[9, 9, 9, 9, 9, 9]" 4 g' data' n] ci r(1)
  have "chunk_inv g'" by simp
  with stored_bounded ci r show ?thesis by blast
qed

section \<open>Short returns\<close>

lemma Read_body_Break_iff:
  "(\<exists>r. Read_body cd h f data len rv = Break r) =
   (chunkIndex h = chunkSize h \<and> frame_failure cd h f)"
  by (auto simp: Read_body_def frame_failure_def Let_def split: prod.splits option.splits)

lemma Read_body_Break_result:
  "Read_body cd h f data len rv = Break (h', f', data', rv') \<Longrightarrow> data' = data \<and> rv' = rv"
  by (auto simp: Read_body_def Let_def split: prod.splits option.splits if_splits)

lemma length_memcpy:
  "p + length src \<le> length dst \<Longrightarrow> length (memcpy dst p src) = length dst"
  by (simp add: memcpy_def)

lemma drop_memcpy:
  "p + length src \<le> k \<Longrightarrow> p \<le> length dst \<Longrightarrow> drop k (memcpy dst p src) = drop k dst"
  by (simp add: memcpy_def min_def)

lemma take_memcpy:
  "p \<le> length dst \<Longrightarrow> k \<le> p \<Longrightarrow> take k (memcpy dst p src) = take k dst"
  by (simp add: memcpy_def min_def)

lemma unat_add_le: "(l::u32) \<le> len - rv \<Longrightarrow> rv \<le> len \<Longrightarrow> unat (rv + l) = unat rv + unat l"
  by (metis add.commute plus_minus_no_overflow_ab unat_plus_simple)

lemma memcpy_Nil: "memcpy dst p [] = dst"
  by (simp add: memcpy_def)

lemma Read_body_Next_data:
  assumes "Read_body cd h f data len rv = Next (h', f', data', rv')"
  shows "\<exists>src l. data' = memcpy data (unat rv) src \<and> length src \<le> unat l \<and>
                 l \<le> len - rv \<and> rv' = rv + l"
proof -
  define P where "P d r = (\<exists>src l. d = memcpy data (unat rv) src \<and> length src \<le> unat l \<and>
                 l \<le> len - rv \<and> r = rv + l)" for d r
  have step: "\<And>src l. length src \<le> unat l \<Longrightarrow> l \<le> len - rv \<Longrightarrow>
                P (memcpy data (unat rv) src) (rv + l)"
    unfolding P_def by blast
  have z: "P data rv"
    unfolding P_def by (intro exI [of _ "[]"] exI [of _ 0]) (simp add: memcpy_Nil)
  from assms z have "P data' rv'"
    by (auto simp: Read_body_def Let_def simp del: take_append
        split: prod.splits option.splits if_splits intro!: step)
  then show ?thesis unfolding P_def .
qed

lemma Read_body_frame:
  assumes "rv \<le> len" "unat len \<le> length data"
    and "Read_body cd h f data len rv = Next (h', f', data', rv')"
  shows "rv \<le> rv' \<and> rv' \<le> len \<and> length data' = length data \<and>
         drop (unat rv') data' = drop (unat rv') data \<and>
         take (unat rv) data' = take (unat rv) data"
proof -
  from Read_body_Next_data [OF assms(3)] obtain src l where
    d: "data' = memcpy data (unat rv) src" and s: "length src \<le> unat l"
    and l: "l \<le> len - rv" and r: "rv' = rv + l" by blast
  have u: "unat rv' = unat rv + unat l" unfolding r by (rule unat_add_le [OF l assms(1)])
  have "unat l \<le> unat (len - rv)" using l by (simp add: word_le_nat_alt)
  also have "\<dots> = unat len - unat rv" by (rule unat_sub [OF assms(1)])
  finally have b: "unat rv + unat l \<le> unat len" using assms(1) by (simp add: word_le_nat_alt)
  have 1: "rv \<le> rv'" using u by (simp add: word_le_nat_alt)
  have 2: "rv' \<le> len" using u b by (simp add: word_le_nat_alt)
  have p: "unat rv \<le> length data" using b assms(2) by simp
  have 3: "length data' = length data"
    unfolding d using s b assms(2) by (intro length_memcpy) simp
  have 4: "drop (unat rv') data' = drop (unat rv') data"
    unfolding d u using s p by (intro drop_memcpy) simp_all
  have 5: "take (unat rv) data' = take (unat rv) data"
    unfolding d using p by (intro take_memcpy) simp_all
  from 1 2 3 4 5 show ?thesis by blast
qed

lemma Read_loop_frame:
  "rv \<le> len \<Longrightarrow> unat len \<le> length data \<Longrightarrow>
   Read_loop cd h f data len rv = (h', f', data', rv') \<Longrightarrow>
     rv \<le> rv' \<and> rv' \<le> len \<and> length data' = length data \<and>
     drop (unat rv') data' = drop (unat rv') data \<and>
     take (unat rv) data' = take (unat rv) data"
proof (induction cd h f data len rv rule: Read_loop.induct)
  case (1 cd h f data len rv)
  show ?case
  proof (cases "rv < len")
    case False
    with "1.prems" show ?thesis by (simp add: Read_loop.simps)
  next
    case True
    show ?thesis
    proof (cases "Read_body cd h f data len rv")
      case (Break r)
      with True "1.prems"(3) have "Read_body cd h f data len rv = Break (h', f', data', rv')"
        by (simp add: Read_loop.simps [of cd h f data len rv])
      from Read_body_Break_result [OF this] "1.prems"(1) show ?thesis by simp
    next
      case (Next r)
      obtain h1 f1 d1 rv1 where r: "r = (h1, f1, d1, rv1)" by (cases r) auto
      from Next r have n: "Read_body cd h f data len rv = Next (h1, f1, d1, rv1)" by simp
      note fr = Read_body_frame [OF "1.prems"(1,2) n]
      from "1.prems"(3) True Next r have l: "Read_loop cd h1 f1 d1 len rv1 = (h', f', data', rv')"
        by (simp add: Read_loop.simps [of cd h f data len rv])
      from fr "1.prems"(2) have p1: "rv1 \<le> len" "unat len \<le> length d1" by simp_all
      from "1.IH" True Next r p1 l
      have ih: "rv1 \<le> rv' \<and> rv' \<le> len \<and> length data' = length d1 \<and>
         drop (unat rv') data' = drop (unat rv') d1 \<and>
         take (unat rv1) data' = take (unat rv1) d1" by simp
      have le: "unat rv \<le> unat rv1" "unat rv1 \<le> unat rv'" using fr ih by (simp_all add: word_le_nat_alt)
      have a: "drop (unat rv') d1 = drop (unat rv') data"
      proof -
        have "drop (unat rv') d1 = drop (unat rv' - unat rv1) (drop (unat rv1) d1)"
          using le by simp
        also have "\<dots> = drop (unat rv' - unat rv1) (drop (unat rv1) data)" using fr by simp
        also have "\<dots> = drop (unat rv') data" using le by simp
        finally show ?thesis .
      qed
      have b: "take (unat rv) data' = take (unat rv) data"
      proof -
        have "take (unat rv) data' = take (unat rv) (take (unat rv1) data')"
          using le by (simp add: min_def)
        also have "\<dots> = take (unat rv) (take (unat rv1) d1)" using ih by simp
        also have "\<dots> = take (unat rv) d1" using le by (simp add: min_def)
        also have "\<dots> = take (unat rv) data" using fr by simp
        finally show ?thesis .
      qed
      from fr ih a b show ?thesis by auto
    qed
  qed
qed

lemma Read_loop_failure:
  assumes "rv < len" "chunkIndex h = chunkSize h" "frame_failure cd h f"
  shows "\<exists>h' f'. Read_loop cd h f data len rv = (h', f', data, rv)"
proof -
  from assms(2,3) Read_body_Break_iff [of cd h f data len rv]
  obtain r where r: "Read_body cd h f data len rv = Break r" by blast
  obtain h' f' d' rv' where "r = (h', f', d', rv')" by (cases r) auto
  with r Read_body_Break_result [of cd h f data len rv h' f' d' rv']
  have "Read_body cd h f data len rv = Break (h', f', data, rv)" by simp
  with assms(1) show ?thesis by (simp add: Read_loop.simps [of cd h f data len rv])
qed

text \<open>
  C8.  When the loop of Read or Skip is at a point where the buffer is used up and pulling
  the next frame fails (short read of the length, short read of the payload, or a status
  other than \<^verbatim>\<open>Z_OK\<close>), it ends there: the value returned is the count reached so far, less
  than the length asked for, and the destination is as it was at that point.  A Read
  never returns more than was asked for and leaves the destination beyond the bytes it
  reports untouched; a Skip never returns more than was asked for.
\<close>

theorem short_return_on_failure:
  "(rv < len \<and> chunkIndex h = chunkSize h \<and> frame_failure cd h f \<longrightarrow>
      (\<exists>h' f'. Read_loop cd h f data len rv = (h', f', data, rv) \<and>
               Skip_loop cd h f len rv = (h', f', rv))) \<and>
   (unat len \<le> length data \<and> Read cd h data len = Inr (g, data', n) \<longrightarrow>
      n \<le> len \<and> length data' = length data \<and> drop (unat n) data' = drop (unat n) data) \<and>
   (Skip cd h len = Inr (g', n') \<longrightarrow> n' \<le> len)"
proof -
  have 1: "\<exists>h' f'. Read_loop cd h f data len rv = (h', f', data, rv) \<and>
               Skip_loop cd h f len rv = (h', f', rv)"
    if a: "rv < len \<and> chunkIndex h = chunkSize h \<and> frame_failure cd h f"
  proof -
    from a obtain h' f' where r: "Read_loop cd h f data len rv = (h', f', data, rv)"
      using Read_loop_failure [of rv len h cd f data] by blast
    then have "Skip_loop cd h f len rv = (h', f', rv)"
      by (simp add: Skip_loop_Read_loop [of cd h f len rv data] drop_data_def)
    with r show ?thesis by blast
  qed
  have 2: "n \<le> len \<and> length data' = length data \<and> drop (unat n) data' = drop (unat n) data"
    if a: "unat len \<le> length data \<and> Read cd h data len = Inr (g, data', n)"
  proof -
    from a obtain f0 h1 f1 where l: "Read_loop cd h f0 data len 0 = (h1, f1, data', n)"
      by (auto simp: Read_def split: option.splits prod.splits)
    from Read_loop_frame [OF _ _ l] a show ?thesis by simp
  qed
  have 3: "n' \<le> len" if a: "Skip cd h len = Inr (g', n')"
  proof -
    from a obtain f0 h1 f1 where l: "Skip_loop cd h f0 len 0 = (h1, f1, n')"
      by (auto simp: Skip_def split: option.splits prod.splits)
    obtain d1 where r: "Read_loop cd h f0 (replicate (unat len) 0) len 0 = (h1, f1, d1, n')"
      using l unfolding Skip_loop_Read_loop [of cd h f0 len 0 "replicate (unat len) 0"]
      by (cases "Read_loop cd h f0 (replicate (unat len) 0) len 0") (auto simp: drop_data_def)
    from Read_loop_frame [OF _ _ r] show ?thesis by simp
  qed
  from 1 2 3 show ?thesis by blast
qed

theorem short_return_on_failure_witness:
  "(3::u32) < 5 \<and> chunkIndex truncated_handle3 = chunkSize truncated_handle3 \<and>
   frame_failure stored_codec truncated_handle3 (stream_of truncated_handle3) \<and>
   (\<exists>h' f'. Read_loop stored_codec truncated_handle3 (stream_of truncated_handle3)
               [1, 2, 3, 9, 9] 5 3 = (h', f', [1, 2, 3, 9, 9], 3) \<and>
            Skip_loop stored_codec truncated_handle3 (stream_of truncated_handle3) 5 3 =
              (h', f', 3)) \<and>
   (\<exists>g. Read stored_codec truncated_handle [9, 9, 9, 9, 9] 5 = Inr (g, [1, 2, 3, 9, 9], 3))"
proof -
  have a: "(3::u32) < 5" by simp
  have b: "chunkIndex truncated_handle3 = chunkSize truncated_handle3" by code_simp
  have c: "frame_failure stored_codec truncated_handle3 (stream_of truncated_handle3)"
    by code_simp
  have "case Read stored_codec truncated_handle [9, 9, 9, 9, 9] 5 of
          Inr (g, d, n) \<Rightarrow> d = [1, 2, 3, 9, 9] \<and> n = 3
        | Inl e \<Rightarrow> False"
    by code_simp
  then have d: "\<exists>g. Read stored_codec truncated_handle [9, 9, 9, 9, 9] 5 = Inr (g, [1, 2, 3, 9, 9], 3)"
    by (auto split: sum.splits)
  from short_return_on_failure [THEN conjunct1,
      of 3 5 truncated_handle3 stored_codec "stream_of truncated_handle3" "[1, 2, 3, 9, 9]"]
    a b c d
  show ?thesis by blast
qed

section \<open>Opening for writing\<close>

lemma length_le32 [simp]: "length (le32 w) = 4"
  by (simp add: le32_def)

lemma length_le64 [simp]: "length (le64 w) = 8"
  by (simp add: le64_def)

lemma length_RZipHeader [simp]: "length RZipHeader = 8"
  by (simp add: RZipHeader_def)

lemma store_append: "store bs (length bs) w = bs @ w"
  by (simp add: store_def)

lemma drop_past_append: "length Q = n \<Longrightarrow> drop (n + k) (Q @ R) = drop k R"
  by simp

lemma take_first_append: "length Q = n \<Longrightarrow> take n (Q @ R) = Q"
  by simp

lemma store_store: "store (store B s b) (s + length b) w = store B s (b @ w)"
proof -
  define P where "P = take s B @ replicate (s - length B) 0 @ b"
  define R where "R = drop (s + length b) B"
  have l: "length P = s + length b" unfolding P_def by simp
  have st: "store B s b = P @ R" unfolding P_def R_def by (simp add: store_def)
  have t: "take (s + length b) (P @ R) = P" by (rule take_first_append [OF l])
  have "drop (s + length b + length w) (P @ R) = drop (length w) R"
    by (rule drop_past_append [OF l])
  also have "\<dots> = drop (s + length b + length w) B"
    unfolding R_def by (simp add: add.commute)
  finally have d: "drop (s + length b + length w) (P @ R) =
                   drop (s + length (b @ w)) B"
    by (simp add: add.assoc)
  have n: "s + length b - length (P @ R) = 0" using l by simp
  have "store (P @ R) (s + length b) w = P @ w @ drop (s + length (b @ w)) B"
    unfolding store_def t d n by simp
  also have "\<dots> = store B s (b @ w)" unfolding P_def store_def by simp
  finally show ?thesis unfolding st .
qed

lemma RZipHeader_nonempty: "RZipHeader \<noteq> []" "le32 w \<noteq> []" "le64 v \<noteq> []"
  by (simp_all add: RZipHeader_def le32_def le64_def)

text \<open>What a flush, a write and a seek that succeed do to the content of the file.\<close>

lemma fflush_ok:
  assumes "fflush f = (f', True)"
  shows "wbuf f' = [] \<and> writable f' = writable f \<and> fname f' = fname f \<and>
         quota f' = quota f \<and> bufsize f' = bufsize f \<and>
         (length (wbuf f) \<le> fpos f \<longrightarrow> fbytes f' = contents f \<and> fpos f' = fpos f)"
  using fflush_True [OF assms] by (auto simp: contents_def)

lemma fwrite_True:
  assumes "fwrite f bs = (f', True)" "length (wbuf f) \<le> fpos f"
  shows "contents f' = store (contents f) (fpos f) bs \<and> fpos f' = fpos f + length bs \<and>
         length (wbuf f') \<le> fpos f' \<and> bs \<noteq> [] \<and> writable f \<and> writable f' \<and>
         fname f' = fname f \<and> quota f' = quota f \<and> bufsize f' = bufsize f"
proof -
  from assms(1) have w: "writable f" "bs \<noteq> []" by (auto simp: fwrite_def split: if_splits)
  show ?thesis
  proof (cases "length (wbuf f) + length bs \<le> bufsize f")
    case True
    with assms(1) w have f': "f' = f\<lparr>wbuf := wbuf f @ bs, fpos := fpos f + length bs\<rparr>"
      by (simp add: fwrite_def)
    define s where "s = fpos f - length (wbuf f)"
    from assms(2) have p: "fpos f = s + length (wbuf f)" unfolding s_def by simp
    have "contents f' = store (fbytes f) s (wbuf f @ bs)"
      unfolding f' using w(2) p by (simp add: contents_def)
    also have "\<dots> = store (contents f) (fpos f) bs"
    proof (cases "wbuf f = []")
      case True
      with p show ?thesis by (simp add: contents_def)
    next
      case False
      then have "contents f = store (fbytes f) s (wbuf f)" by (simp add: contents_def s_def)
      then show ?thesis unfolding p by (simp only: store_store)
    qed
    finally show ?thesis using w assms(2) unfolding f' by simp
  next
    case False
    with assms(1) w obtain f1 where fl: "fflush f = (f1, True)"
      and r: "put f1 (fpos f1) bs = (f', True)"
      by (auto simp: fwrite_def split: prod.splits bool.splits)
    from fflush_ok [OF fl] assms(2)
    have f1: "wbuf f1 = []" "writable f1 = writable f" "fname f1 = fname f" "quota f1 = quota f"
      "bufsize f1 = bufsize f" "fbytes f1 = contents f" "fpos f1 = fpos f" by simp_all
    from put_True [OF r] w f1 show ?thesis by (simp add: contents_def)
  qed
qed

lemma fseek_set_True:
  assumes "fseek_set f p = (f', True)"
  shows "wbuf f' = [] \<and> fpos f' = p \<and> writable f' = writable f \<and> fname f' = fname f \<and>
         quota f' = quota f \<and> bufsize f' = bufsize f \<and>
         (length (wbuf f) \<le> fpos f \<longrightarrow> fbytes f' = contents f)"
proof -
  from assms obtain f1 where fl: "fflush f = (f1, True)" and f': "f' = f1\<lparr>fpos := p\<rparr>"
    by (auto simp: fseek_set_def split: prod.splits bool.splits)
  from fflush_ok [OF fl] show ?thesis unfolding f' by simp
qed

lemma fseek_cur_True:
  assumes "fseek_cur f k = (f', True)" "length (wbuf f) \<le> fpos f"
  shows "wbuf f' = [] \<and> fpos f' = nat (int (fpos f) + k) \<and> writable f' = writable f \<and>
         fname f' = fname f \<and> quota f' = quota f \<and> bufsize f' = bufsize f \<and>
         fbytes f' = contents f"
proof -
  from assms(1) obtain f1 where fl: "fflush f = (f1, True)"
    and f': "f' = f1\<lparr>fpos := nat (int (fpos f1) + k)\<rparr>"
    by (auto simp: fseek_cur_def split: prod.splits bool.splits if_splits)
  from fflush_ok [OF fl] assms(2) show ?thesis unfolding f' by simp
qed

lemma Open_write_ok:
  assumes "file_rz h = None" "12 \<le> capacity d" "12 \<le> bufsiz d"
  shows "Open d h path True =
           Inr (d\<lparr>files := (files d)(path \<mapsto> [])\<rparr>, True,
                h\<lparr>writing := True, size_rz := 0, maxChunkSize := 1048576,
                  file_rz := Some \<lparr>fbytes = RZipHeader @ le32 1048576, fpos = 20, writable = True,
                                   quota = capacity d, fname = path, wbuf = [],
                                   bufsize = bufsiz d\<rparr>\<rparr>)"
proof -
  let ?f0 = "\<lparr>fbytes = [], fpos = 0, writable = True, quota = capacity d, fname = path,
               wbuf = [], bufsize = bufsiz d\<rparr>"
  have w1: "fwrite ?f0 RZipHeader = (?f0\<lparr>wbuf := RZipHeader, fpos := 8\<rparr>, True)"
    using assms(3) by (simp add: fwrite_def RZipHeader_nonempty)
  have w2: "fwrite (?f0\<lparr>wbuf := RZipHeader, fpos := 8\<rparr>) (le32 1048576) =
      (?f0\<lparr>wbuf := RZipHeader @ le32 1048576, fpos := 12\<rparr>, True)"
    using assms(3) by (simp add: fwrite_def RZipHeader_nonempty)
  have s: "fseek_cur (?f0\<lparr>wbuf := RZipHeader @ le32 1048576, fpos := 12\<rparr>) 8 =
      (?f0\<lparr>fbytes := RZipHeader @ le32 1048576, fpos := 20\<rparr>, True)"
    using assms(2) by (simp add: fseek_cur_def fflush_def put_def store_def Let_def)
  show ?thesis
    using assms(1) w1 w2 s
    by (simp add: Open_def fopen_def Open_write_def Let_def)
qed

lemma Open_read_short:
  assumes "file_rz h = None" "files d path = Some (RZipHeader @ mcs)" "length mcs = 4"
  shows "\<exists>h'. Open d h path False = Inr (d, False, h')"
proof -
  let ?f0 = "\<lparr>fbytes = RZipHeader @ mcs, fpos = 0, writable = False,
               quota = capacity d, fname = path, wbuf = [], bufsize = bufsiz d\<rparr>"
  have r1: "fread ?f0 8 = (?f0\<lparr>fpos := 8\<rparr>, Some RZipHeader)"
    using assms(3) by (simp add: fread_def)
  have r2: "fread (?f0\<lparr>fpos := 8\<rparr>) 4 = (?f0\<lparr>fpos := 12\<rparr>, Some mcs)"
    using assms(3) by (simp add: fread_def)
  have r3: "fread (?f0\<lparr>fpos := 12\<rparr>) 8 = (?f0\<lparr>fpos := 12\<rparr>, None)"
    using assms(3) by (simp add: fread_def)
  show ?thesis
    using assms(1,2) r1 r2 r3
    by (simp add: Open_def fopen_def Open_read_def Close_def fclose_def)
qed

text \<open>
  C5.  Open for writing followed at once by Close leaves a file of 12 bytes, the magic and
  the maximum chunk size: the eight bytes of the size field were only skipped over, and no
  Write came to store them.  Open for reading then fails on that file.
\<close>

theorem empty_archive_unreadable:
  "empty_round_trip = Inr (Some (RZipHeader @ le32 1048576), True, False) \<and>
   length (RZipHeader @ le32 1048576) = 12"
proof -
  have a: "file_rz closed_handle = None" by (simp add: closed_handle_def)
  have b: "12 \<le> capacity empty_disk" "12 \<le> bufsiz empty_disk"
    by (simp_all add: empty_disk_def)
  let ?d2 = "empty_disk\<lparr>files := (files empty_disk)(''e.state'' \<mapsto> RZipHeader @ le32 1048576)\<rparr>"
  let ?h2 = "closed_handle\<lparr>writing := True, size_rz := 0, maxChunkSize := 1048576,
                  file_rz := None, chunk := []\<rparr>"
  have c: "file_rz ?h2 = None" by simp
  have f: "files ?d2 ''e.state'' = Some (RZipHeader @ le32 1048576)" by simp
  from Open_read_short [OF c f] obtain h' where
    o: "Open ?d2 ?h2 ''e.state'' False = Inr (?d2, False, h')" by auto
  show ?thesis
    unfolding empty_round_trip_def Open_write_ok [OF a b]
    using o by (simp add: Close_def fclose_def fflush_def)
qed

section \<open>The size field after Write\<close>

lemma ucast_add_u32:
  "unat ((a::u32) + b) = unat a + unat b \<Longrightarrow> (ucast (a + b) :: u64) = ucast a + ucast b"
  by (metis Abs_fnat_hom_add of_nat_unat)

lemma store_field: "length w = 8 \<Longrightarrow> take 8 (drop 12 (store bs 12 w)) = w"
  by (simp add: store_def min_def)

lemma Write_body_Break_result:
  "Write_body cd h f data len rv = Break (h', f', rv') \<Longrightarrow> h' = h \<and> rv' = rv"
  by (auto simp: Write_body_def Let_def split: prod.splits if_splits bool.splits)

lemma Write_body_Next_result:
  "Write_body cd h f data len rv = Next (h', f', rv') \<Longrightarrow>
     rv' = rv + min (maxChunkSize h) (len - rv) \<and>
     h' = h\<lparr>size_rz := size_rz h + ucast (min (maxChunkSize h) (len - rv))\<rparr>"
  by (auto simp: Write_body_def Let_def split: prod.splits if_splits bool.splits)

lemma Write_loop_size:
  "rv \<le> len \<Longrightarrow> Write_loop cd h f data len rv = (h', f', rv') \<Longrightarrow>
     rv \<le> rv' \<and> rv' \<le> len \<and> size_rz h' + ucast rv = size_rz h + ucast rv' \<and>
     h' = h\<lparr>size_rz := size_rz h'\<rparr>"
proof (induction cd h f data len rv rule: Write_loop.induct)
  case (1 cd h f data len rv)
  show ?case
  proof (cases "rv < len")
    case False
    with "1.prems" show ?thesis by (simp add: Write_loop.simps)
  next
    case True
    show ?thesis
    proof (cases "Write_body cd h f data len rv")
      case (Break r)
      with True "1.prems"(2) have "Write_body cd h f data len rv = Break (h', f', rv')"
        by (simp add: Write_loop.simps [of cd h f data len rv])
      from Write_body_Break_result [OF this] "1.prems"(1) show ?thesis by simp
    next
      case (Next r)
      obtain h1 f1 rv1 where r: "r = (h1, f1, rv1)" by (cases r) auto
      from Next r have n: "Write_body cd h f data len rv = Next (h1, f1, rv1)" by simp
      note nr = Write_body_Next_result [OF n]
      let ?l = "min (maxChunkSize h) (len - rv)"
      have l: "?l \<le> len - rv" by simp
      have u: "unat (rv + ?l) = unat rv + unat ?l" by (rule unat_add_le [OF l "1.prems"(1)])
      have "unat ?l \<le> unat (len - rv)" using l by (simp add: word_le_nat_alt)
      also have "\<dots> = unat len - unat rv" by (rule unat_sub [OF "1.prems"(1)])
      finally have b: "unat rv + unat ?l \<le> unat len"
        using "1.prems"(1) by (simp add: word_le_nat_alt)
      have le1: "rv \<le> rv1" using nr u by (simp add: word_le_nat_alt)
      have le2: "rv1 \<le> len" using nr u b by (simp add: word_le_nat_alt)
      from "1.prems"(2) True Next r have lp: "Write_loop cd h1 f1 data len rv1 = (h', f', rv')"
        by (simp add: Write_loop.simps [of cd h f data len rv])
      from "1.IH" True Next r le2 lp
      have ih: "rv1 \<le> rv' \<and> rv' \<le> len \<and> size_rz h' + ucast rv1 = size_rz h1 + ucast rv' \<and>
                h' = h1\<lparr>size_rz := size_rz h'\<rparr>" by simp
      have uc: "(ucast rv1 :: u64) = ucast rv + ucast ?l"
        using nr ucast_add_u32 [OF u] by simp
      have s1: "size_rz h1 = size_rz h + ucast ?l" using nr by simp
      have "size_rz h' + ucast rv + ucast ?l = size_rz h + ucast ?l + ucast rv'"
        using ih uc s1 by (simp add: algebra_simps)
      then have sz: "size_rz h' + ucast rv = size_rz h + ucast rv'" by simp
      have hh: "h' = h\<lparr>size_rz := size_rz h'\<rparr>"
      proof -
        from ih have "h' = h1\<lparr>size_rz := size_rz h'\<rparr>" by simp
        also have "\<dots> = h\<lparr>size_rz := size_rz h'\<rparr>" using nr by (metis RZipFile.update_convs(2) RZipFile.surjective)
        finally show ?thesis .
      qed
      from le1 ih sz hh show ?thesis by auto
    qed
  qed
qed

lemma Write_result:
  assumes "Write cd h data len = Inr (h', n)"
  shows "n \<le> len \<and> size_rz h' = size_rz h + ucast n \<and> size_field h' = le64 (size_rz h') \<and>
         file_rz h' \<noteq> None \<and>
         fpos (stream_of h') = fpos (fst (snd (Write_loop cd h (stream_of h) data len 0)))"
proof -
  from assms obtain f where f: "file_rz h = Some f"
    by (auto simp: Write_def split: option.splits)
  obtain h1 f1 rv where l: "Write_loop cd h f data len 0 = (h1, f1, rv)"
    by (cases "Write_loop cd h f data len 0") auto
  from assms f l obtain f2 f3 f4 where
    s1: "fseek_set f1 12 = (f2, True)"
    and w: "fwrite f2 (le64 (size_rz h1)) = (f3, True)"
    and s2: "fseek_set f3 (fpos f1) = (f4, True)"
    and h': "h' = h1\<lparr>file_rz := Some f4\<rparr>" and n: "n = rv"
    by (auto simp: Write_def Let_def split: prod.splits bool.splits)
  from fseek_set_True [OF s1] have f2: "wbuf f2 = []" "fpos f2 = 12" by simp_all
  then have wf2: "length (wbuf f2) \<le> fpos f2" by simp
  from fwrite_True [OF w wf2] f2
  have f3: "contents f3 = store (fbytes f2) 12 (le64 (size_rz h1))"
    "length (wbuf f3) \<le> fpos f3"
    by (simp_all add: contents_def)
  from fseek_set_True [OF s2] f3
  have f4: "fbytes f4 = store (fbytes f2) 12 (le64 (size_rz h1))" "fpos f4 = fpos f1"
    by simp_all
  from Write_loop_size [OF _ l] have sz: "rv \<le> len" "size_rz h1 = size_rz h + ucast rv" by simp_all
  have "size_field h' = le64 (size_rz h1)"
    unfolding h' by (simp add: size_field_def stream_of_def f4 store_field)
  with sz h' n f l f4 show ?thesis by (simp add: stream_of_def)
qed

lemma Writes_result:
  "Writes cd h ws = Inr (h', ns) \<Longrightarrow>
     size_rz h' = size_rz h + of_nat (sum_list (map unat ns)) \<and>
     (ws \<noteq> [] \<longrightarrow> size_field h' = le64 (size_rz h'))"
proof (induction ws arbitrary: h ns)
  case Nil
  then show ?case by simp
next
  case (Cons w ws)
  obtain data len where w: "w = (data, len)" by (cases w) auto
  from Cons.prems w obtain h1 n ns' where
    1: "Write cd h data len = Inr (h1, n)" and 2: "Writes cd h1 ws = Inr (h', ns')"
    and ns: "ns = n # ns'"
    by (auto split: sum.splits)
  note r1 = Write_result [OF 1]
  note ih = Cons.IH [OF 2]
  have a: "size_rz h' = size_rz h + of_nat (sum_list (map unat ns))"
    using r1 ih ns by (simp add: algebra_simps)
  have b: "size_field h' = le64 (size_rz h')"
  proof (cases ws)
    case Nil
    with 2 r1 show ?thesis by simp
  next
    case (Cons a list)
    with ih show ?thesis by simp
  qed
  from a b show ?case by simp
qed

lemma Open_write_size: "Open d h0 path True = Inr (d', True, h) \<Longrightarrow> size_rz h = 0"
  by (auto simp: Open_def Open_write_def Close_def Let_def
      split: if_splits prod.splits option.splits bool.splits)

text \<open>
  C7.  Whenever a Write call returns, however its loop ended, the eight bytes at offset 12
  of the file on the medium are the little-endian form of the member \<^verbatim>\<open>size\<close>, which has
  grown by the value returned, and the stream is at the position where the loop left it.
  So after one or more Write calls on a handle that Open for writing returned, the field
  holds the sum of the values returned so far (as a 64-bit number).  A call in which one
  of the three \<^verbatim>\<open>verify\<close> calls fails, as when the medium does not take the buffered bytes
  at a seek, does not return.
\<close>

theorem header_size_fresh:
  "(Write cd g data len = Inr (g', n) \<longrightarrow>
      size_field g' = le64 (size_rz g') \<and> size_rz g' = size_rz g + ucast n \<and>
      fpos (stream_of g') = fpos (fst (snd (Write_loop cd g (stream_of g) data len 0)))) \<and>
   (Open d h0 path True = Inr (d', True, h) \<and> Writes cd h ws = Inr (h', ns) \<and> ws \<noteq> [] \<longrightarrow>
      size_field h' = le64 (of_nat (sum_list (map unat ns))))"
proof -
  have 1: "size_field g' = le64 (size_rz g') \<and> size_rz g' = size_rz g + ucast n \<and>
      fpos (stream_of g') = fpos (fst (snd (Write_loop cd g (stream_of g) data len 0)))"
    if "Write cd g data len = Inr (g', n)"
    using Write_result [OF that] by simp
  have 2: "size_field h' = le64 (of_nat (sum_list (map unat ns)))"
    if a: "Open d h0 path True = Inr (d', True, h) \<and> Writes cd h ws = Inr (h', ns) \<and> ws \<noteq> []"
  proof -
    from a Open_write_size [of d h0 path d' h] have "size_rz h = 0" by simp
    with a Writes_result [of cd h ws h' ns] show ?thesis by simp
  qed
  from 1 2 show ?thesis by blast
qed

lemmas write_eval =
  Write_def Write_loop.simps Write_body_def Let_def stored_codec_def stored_compress_def
  fwrite_def fflush_def put_def store_def fseek_set_def closed_handle_def Z_OK_def
  le32_def le64_def RZipHeader_def stream_of_def

text \<open>
  On a medium that holds 100 bytes, behind a buffer of 256 bytes: a call that writes all
  of its three bytes; a call whose frame of 401 bytes goes past the buffer to the medium,
  which cuts it short, so that \<^verbatim>\<open>fwrite\<close> fails and the loop ends; and a call whose loop
  ends on a codec error.
\<close>

theorem header_size_fresh_witness:
  "Open tight_disk closed_handle ''t.state'' True =
     Inr (tight_disk\<lparr>files := (files tight_disk)(''t.state'' \<mapsto> [])\<rparr>, True, tight_write_handle) \<and>
   (\<exists>h'. Writes stored_codec tight_write_handle [([1, 2, 3], 3), (replicate 400 7, 400)] =
            Inr (h', [3, 0]) \<and>
          size_field h' = le64 3) \<and>
   (\<exists>g'. Write failing_codec tight_write_handle [1, 2, 3] 3 = Inr (g', 0) \<and>
          size_field g' = le64 0 \<and> fpos (stream_of g') = 20)"
proof -
  let ?ws = "[([1, 2, 3], 3), (replicate 400 7, 400)] :: (u8 list \<times> u32) list"
  have a: "file_rz closed_handle = None" by (simp add: closed_handle_def)
  have b: "12 \<le> capacity tight_disk" "12 \<le> bufsiz tight_disk"
    by (simp_all add: tight_disk_def)
  have o: "Open tight_disk closed_handle ''t.state'' True =
     Inr (tight_disk\<lparr>files := (files tight_disk)(''t.state'' \<mapsto> [])\<rparr>, True, tight_write_handle)"
    unfolding Open_write_ok [OF a b] by (simp add: tight_write_handle_def tight_disk_def)
  have "case Writes stored_codec tight_write_handle ?ws of
          Inr (h', ns) \<Rightarrow> ns = [3, 0]
        | Inl e \<Rightarrow> False"
    by (simp add: write_eval tight_write_handle_def)
  then obtain h' where w: "Writes stored_codec tight_write_handle ?ws = Inr (h', [3, 0])"
    by (auto split: sum.splits)
  from header_size_fresh [THEN conjunct2, of tight_disk closed_handle "''t.state''" _
      tight_write_handle stored_codec ?ws h' "[3, 0]"] o w
  have 1: "size_field h' = le64 3" by simp
  have "case Write failing_codec tight_write_handle [1, 2, 3] 3 of
          Inr (g', n) \<Rightarrow> n = 0
        | Inl e \<Rightarrow> False"
    by (simp add: write_eval failing_codec_def tight_write_handle_def)
  then obtain g' where c: "Write failing_codec tight_write_handle [1, 2, 3] 3 = Inr (g', 0)"
    by (auto split: sum.splits)
  have lp: "Write_loop failing_codec tight_write_handle (stream_of tight_write_handle)
              [1, 2, 3] 3 0 = (tight_write_handle, stream_of tight_write_handle, 0)"
    by (simp add: Write_loop.simps Write_body_def Let_def failing_codec_def Z_OK_def)
  from header_size_fresh [THEN conjunct1, of failing_codec tight_write_handle "[1, 2, 3]" 3
      g' 0] c
  have 2: "size_field g' = le64 (size_rz g')" "size_rz g' = size_rz tight_write_handle"
    "fpos (stream_of g') = fpos (stream_of tight_write_handle)"
    unfolding lp by simp_all
  have 3: "size_rz tight_write_handle = 0" "fpos (stream_of tight_write_handle) = 20"
    by (simp_all add: tight_write_handle_def closed_handle_def stream_of_def)
  from o w 1 c 2 3 show ?thesis by simp
qed
section \<open>The frames a Write call appends\<close>

declare chunks_of.simps [simp del]

lemma store_at_end:
  assumes "12 \<le> length B" "P = 20 + length (drop 20 B)"
  shows "take 12 (store B P w) = take 12 B \<and> drop 20 (store B P w) = drop 20 B @ w \<and>
         12 \<le> length (store B P w)"
proof (cases "20 \<le> length B")
  case True
  with assms have P: "P = length B" by simp
  show ?thesis unfolding P using True assms(1) by (simp add: store_def)
next
  case False
  with assms have P: "P = 20" by simp
  show ?thesis unfolding P using False assms(1) by (simp add: store_def)
qed

lemma layout_store:
  assumes "12 \<le> length B" "take 12 B = H" "drop 20 B = F" "P = 20 + length F"
  shows "12 \<le> length (store B P w) \<and> take 12 (store B P w) = H \<and>
         drop 20 (store B P w) = F @ w \<and> P + length w = 20 + length (F @ w)"
proof -
  from assms(3,4) have "P = 20 + length (drop 20 B)" by simp
  from store_at_end [OF assms(1) this, of w] assms(2,3,4) show ?thesis by simp
qed

lemma store_header:
  assumes "12 \<le> length B" "length w = 8"
  shows "take 12 (store B 12 w) = take 12 B \<and> drop 20 (store B 12 w) = drop 20 B \<and>
         20 \<le> length (store B 12 w) \<and> take 8 (drop 12 (store B 12 w)) = w"
  using assms by (simp add: store_def min_def)

lemma chunks_of_step:
  "m \<noteq> 0 \<Longrightarrow> xs \<noteq> [] \<Longrightarrow> chunks_of m xs = take m xs # chunks_of m (drop m xs)"
  by (simp add: chunks_of.simps [of m xs])

lemma chunks_of_Nil: "chunks_of m [] = []"
  by (simp add: chunks_of.simps)

lemma concat_chunks_of: "m \<noteq> 0 \<Longrightarrow> concat (chunks_of m xs) = xs"
proof (induction m xs rule: chunks_of.induct)
  case (1 m xs)
  then show ?case by (cases "xs = []") (simp_all add: chunks_of_Nil chunks_of_step)
qed

lemma chunks_of_lengths:
  "c \<in> set (chunks_of m xs) \<Longrightarrow> 0 < length c \<and> length c \<le> m"
proof (induction m xs rule: chunks_of.induct)
  case (1 m xs)
  show ?case
  proof (cases "m = 0 \<or> xs = []")
    case True
    with "1.prems" show ?thesis by (simp add: chunks_of.simps [of m xs])
  next
    case False
    with "1.prems" "1.IH" show ?thesis by (auto simp: chunks_of_step)
  qed
qed

lemma chunks_of_butlast:
  "c \<in> set (butlast (chunks_of m xs)) \<Longrightarrow> length c = m"
proof (induction m xs rule: chunks_of.induct)
  case (1 m xs)
  show ?case
  proof (cases "m = 0 \<or> xs = []")
    case True
    with "1.prems" show ?thesis by (simp add: chunks_of.simps [of m xs])
  next
    case False
    show ?thesis
    proof (cases "chunks_of m (drop m xs) = []")
      case True
      with False "1.prems" show ?thesis by (simp add: chunks_of_step)
    next
      case ne: False
      then have "drop m xs \<noteq> []" by (auto simp: chunks_of_Nil)
      then have "m < length xs" by simp
      with False ne "1.prems" "1.IH" show ?thesis by (auto simp: chunks_of_step)
    qed
  qed
qed

lemma stream_layout_frame:
  assumes "stream_layout f m zs"
    and "fwrite f (le32 (of_nat (length z))) = (f1, True)" and "fwrite f1 z = (f2, True)"
  shows "stream_layout f2 m (zs @ [z])"
proof -
  let ?a = "le32 (of_nat (length z))"
  from assms(1) have wf: "length (wbuf f) \<le> fpos f"
    and l: "12 \<le> length (contents f)" "take 12 (contents f) = RZipHeader @ le32 m"
    "drop 20 (contents f) = concat (map frame zs)" "fpos f = 20 + length (concat (map frame zs))"
    and ne: "[] \<notin> set zs"
    by (simp_all add: stream_layout_def)
  from fwrite_True [OF assms(2) wf]
  have f1: "contents f1 = store (contents f) (fpos f) ?a" "fpos f1 = fpos f + length ?a"
    and wf1: "length (wbuf f1) \<le> fpos f1" by simp_all
  from fwrite_True [OF assms(3) wf1]
  have f2: "contents f2 = store (contents f1) (fpos f1) z" "fpos f2 = fpos f1 + length z"
    and wf2: "length (wbuf f2) \<le> fpos f2" and zne: "z \<noteq> []" by simp_all
  from layout_store [OF l, of ?a, folded f1]
  have l1: "12 \<le> length (contents f1)" "take 12 (contents f1) = RZipHeader @ le32 m"
    "drop 20 (contents f1) = concat (map frame zs) @ ?a"
    "fpos f1 = 20 + length (concat (map frame zs) @ ?a)"
    by blast+
  from layout_store [OF l1, of z, folded f2]
  have l2: "12 \<le> length (contents f2)" "take 12 (contents f2) = RZipHeader @ le32 m"
    "drop 20 (contents f2) = (concat (map frame zs) @ ?a) @ z"
    "fpos f2 = 20 + length ((concat (map frame zs) @ ?a) @ z)"
    by blast+
  have "concat (map frame (zs @ [z])) = (concat (map frame zs) @ ?a) @ z"
    by (simp add: frame_def)
  with l2 ne zne wf2 show ?thesis unfolding stream_layout_def by simp
qed

lemma Write_body_Next_layout:
  assumes "Write_body cd h f data len rv = Next (h', f', rv')" "stream_layout f m zs"
    and "maxChunkSize h = m"
  shows "stream_layout f' m
           (zs @ [zipped_of cd m (take (unat (min m (len - rv))) (drop (unat rv) data))])"
proof -
  let ?c = "take (unat (min m (len - rv))) (drop (unat rv) data)"
  let ?z = "zipped_of cd m ?c"
  from assms(1,3) obtain f1 where
    "fwrite f (le32 (of_nat (length ?z))) = (f1, True)" "fwrite f1 ?z = (f', True)"
    by (auto simp: Write_body_def Let_def zipped_of_def split: prod.splits if_splits bool.splits)
  from stream_layout_frame [OF assms(2) this] show ?thesis .
qed

lemma take_min_length: "take (min a (length xs)) xs = take a xs"
  by (simp add: min_def)

lemma drop_min_length: "drop (min a (length xs)) xs = drop a xs"
  by (simp add: min_def)

lemma Write_loop_layout:
  "stream_layout f m zs \<Longrightarrow> maxChunkSize h = m \<Longrightarrow> m \<noteq> 0 \<Longrightarrow> rv \<le> len \<Longrightarrow>
   unat len = length data \<Longrightarrow> Write_loop cd h f data len rv = (h', f', len) \<Longrightarrow>
   stream_layout f' m (zs @ map (zipped_of cd m) (chunks_of (unat m) (drop (unat rv) data)))"
proof (induction cd h f data len rv arbitrary: zs rule: Write_loop.induct)
  case (1 cd h f data len rv)
  show ?case
  proof (cases "rv < len")
    case False
    with "1.prems"(4) have e: "rv = len" by simp
    with "1.prems" show ?thesis by (simp add: Write_loop.simps chunks_of_Nil)
  next
    case True
    show ?thesis
    proof (cases "Write_body cd h f data len rv")
      case (Break r)
      with True "1.prems"(6) have "Write_body cd h f data len rv = Break (h', f', len)"
        by (simp add: Write_loop.simps [of cd h f data len rv])
      from Write_body_Break_result [OF this] True show ?thesis by simp
    next
      case (Next r)
      obtain h1 f1 rv1 where r: "r = (h1, f1, rv1)" by (cases r) auto
      from Next r have n: "Write_body cd h f data len rv = Next (h1, f1, rv1)" by simp
      note nr = Write_body_Next_result [OF n]
      let ?l = "min m (len - rv)"
      let ?xs = "drop (unat rv) data"
      have l: "?l \<le> len - rv" by simp
      have u: "unat (rv + ?l) = unat rv + unat ?l" by (rule unat_add_le [OF l "1.prems"(4)])
      have ul: "unat ?l = min (unat m) (length ?xs)"
        using "1.prems"(4,5) by (simp add: min_def word_le_nat_alt unat_sub)
      have b: "unat rv + unat ?l \<le> unat len"
        using ul "1.prems"(4,5) by (simp add: word_le_nat_alt)
      have le2: "rv1 \<le> len" using nr u b "1.prems"(2) by (simp add: word_le_nat_alt)
      have ne: "?xs \<noteq> []" using True "1.prems"(5) by (simp add: word_less_nat_alt)
      have m0: "unat m \<noteq> 0" using "1.prems"(3) by (simp add: unat_eq_0)
      have c: "take (unat ?l) ?xs = take (unat m) ?xs" unfolding ul by (rule take_min_length)
      have d: "drop (unat rv1) data = drop (unat m) ?xs"
      proof -
        have "drop (unat rv1) data = drop (unat ?l) ?xs"
          using nr u "1.prems"(2) by (simp add: add.commute)
        also have "\<dots> = drop (unat m) ?xs" unfolding ul by (rule drop_min_length)
        finally show ?thesis .
      qed
      from Write_body_Next_layout [OF n "1.prems"(1,2)]
      have l1: "stream_layout f1 m (zs @ [zipped_of cd m (take (unat m) ?xs)])"
        unfolding c .
      have m1: "maxChunkSize h1 = m" using nr "1.prems"(2) by simp
      from "1.prems"(6) True Next r have lp: "Write_loop cd h1 f1 data len rv1 = (h', f', len)"
        by (simp add: Write_loop.simps [of cd h f data len rv])
      from "1.IH" [OF True Next r [symmetric] refl l1 m1 "1.prems"(3) le2 "1.prems"(5) lp]
      show ?thesis
        unfolding d chunks_of_step [OF m0 ne] by simp
    qed
  qed
qed

lemma fwrite_fname: "fwrite f bs = (f', ok) \<Longrightarrow> fname f' = fname f"
  by (auto simp: fwrite_def fflush_def put_def Let_def split: if_splits prod.splits bool.splits)

lemma Write_body_fname:
  "Write_body cd h f data len rv = Next (h', f', rv') \<or>
   Write_body cd h f data len rv = Break (h', f', rv') \<Longrightarrow> fname f' = fname f"
  by (auto simp: Write_body_def Let_def split: prod.splits if_splits bool.splits
      dest!: fwrite_fname)

lemma Write_loop_fname:
  "Write_loop cd h f data len rv = (h', f', rv') \<Longrightarrow> fname f' = fname f"
proof (induction cd h f data len rv rule: Write_loop.induct)
  case (1 cd h f data len rv)
  show ?case
  proof (cases "rv < len")
    case False
    with "1.prems" show ?thesis by (simp add: Write_loop.simps)
  next
    case True
    show ?thesis
    proof (cases "Write_body cd h f data len rv")
      case (Break r)
      with True "1.prems" have "Write_body cd h f data len rv = Break (h', f', rv')"
        by (simp add: Write_loop.simps [of cd h f data len rv])
      then show ?thesis by (rule Write_body_fname [OF disjI2])
    next
      case (Next r)
      obtain h1 f1 rv1 where r: "r = (h1, f1, rv1)" by (cases r) auto
      from Next r have "Write_body cd h f data len rv = Next (h1, f1, rv1)" by simp
      from Write_body_fname [OF disjI1, OF this] have 1: "fname f1 = fname f" .
      from "1.prems" True Next r have "Write_loop cd h1 f1 data len rv1 = (h', f', rv')"
        by (simp add: Write_loop.simps [of cd h f data len rv])
      from "1.IH" [OF True Next r [symmetric] refl this] 1 show ?thesis by simp
    qed
  qed
qed

lemma Write_layout:
  assumes "file_rz h = Some f" "stream_layout f m zs" "maxChunkSize h = m" "m \<noteq> 0"
    and "unat len = length data" "Write cd h data len = Inr (h', len)"
  shows "\<exists>f'. file_rz h' = Some f' \<and>
           stream_layout f' m (zs @ map (zipped_of cd m) (chunks_of (unat m) data)) \<and>
           maxChunkSize h' = m \<and> 20 \<le> length (fbytes f') \<and>
           take 8 (drop 12 (fbytes f')) = le64 (size_rz h') \<and> writable f' \<and>
           wbuf f' = [] \<and> fname f' = fname f"
proof -
  let ?zs = "zs @ map (zipped_of cd m) (chunks_of (unat m) data)"
  let ?w = "le64 (size_rz h')"
  obtain h1 f1 rv where l: "Write_loop cd h f data len 0 = (h1, f1, rv)"
    by (cases "Write_loop cd h f data len 0") auto
  from assms(1,6) l obtain f2 f3 f4 where
    s1: "fseek_set f1 12 = (f2, True)"
    and w: "fwrite f2 (le64 (size_rz h1)) = (f3, True)"
    and s2: "fseek_set f3 (fpos f1) = (f4, True)"
    and h': "h' = h1\<lparr>file_rz := Some f4\<rparr>" and n: "rv = len"
    by (auto simp: Write_def Let_def split: prod.splits bool.splits)
  from Write_loop_layout [OF assms(2,3,4) _ assms(5) l [unfolded n]]
  have l1: "stream_layout f1 m ?zs" by simp
  then have wf1: "length (wbuf f1) \<le> fpos f1" and c1: "12 \<le> length (contents f1)"
    "take 12 (contents f1) = RZipHeader @ le32 m" "drop 20 (contents f1) = concat (map frame ?zs)"
    "fpos f1 = 20 + length (concat (map frame ?zs))" and ne: "[] \<notin> set ?zs"
    by (simp_all add: stream_layout_def)
  from Write_loop_size [OF _ l] assms(3) have m1: "maxChunkSize h1 = m"
    by (metis RZipFile.select_convs(3) RZipFile.surjective RZipFile.update_convs(2) word_zero_le)
  have sz: "size_rz h' = size_rz h1" unfolding h' by simp
  from fseek_set_True [OF s1] wf1
  have f2: "wbuf f2 = []" "fpos f2 = 12" "fbytes f2 = contents f1" "fname f2 = fname f1"
    by simp_all
  then have wf2: "length (wbuf f2) \<le> fpos f2" and c2: "contents f2 = contents f1"
    by (simp_all add: contents_def)
  from fwrite_True [OF w wf2]
  have f3: "contents f3 = store (contents f1) 12 ?w" "length (wbuf f3) \<le> fpos f3"
    "writable f3" "fname f3 = fname f1"
    unfolding c2 f2 sz by simp_all
  from fseek_set_True [OF s2] f3
  have f4: "wbuf f4 = []" "fpos f4 = fpos f1" "fbytes f4 = store (contents f1) 12 ?w"
    "writable f4" "fname f4 = fname f1"
    by simp_all
  then have c4: "contents f4 = store (contents f1) 12 ?w" by (simp add: contents_def)
  from store_header [OF c1(1), of ?w]
  have sh: "take 12 (store (contents f1) 12 ?w) = take 12 (contents f1)"
    "drop 20 (store (contents f1) 12 ?w) = drop 20 (contents f1)"
    "20 \<le> length (store (contents f1) 12 ?w)"
    "take 8 (drop 12 (store (contents f1) 12 ?w)) = ?w"
    by simp_all
  have fn: "fname f1 = fname f" by (rule Write_loop_fname [OF l])
  from sh c1 have c4l: "12 \<le> length (contents f4)"
    "take 12 (contents f4) = RZipHeader @ le32 m"
    "drop 20 (contents f4) = concat (map frame ?zs)"
    unfolding c4 by simp_all
  have "stream_layout f4 m ?zs"
    unfolding stream_layout_def using c4l c1(4) ne f4(1,2) by simp
  moreover have "20 \<le> length (fbytes f4)" "take 8 (drop 12 (fbytes f4)) = ?w"
    "writable f4" "wbuf f4 = []" "fname f4 = fname f"
    using sh f4 fn by simp_all
  ultimately show ?thesis using h' m1 by simp
qed

lemma Writes_layout:
  "file_rz h = Some f \<Longrightarrow> stream_layout f m zs \<Longrightarrow> maxChunkSize h = m \<Longrightarrow> m \<noteq> 0 \<Longrightarrow>
   \<forall>w\<in>set ws. unat (snd w) = length (fst w) \<Longrightarrow> Writes cd h ws = Inr (h', map snd ws) \<Longrightarrow>
   \<exists>f'. file_rz h' = Some f' \<and>
     stream_layout f' m
       (zs @ map (zipped_of cd m) (concat (map (\<lambda>w. chunks_of (unat m) (fst w)) ws))) \<and>
     fname f' = fname f \<and>
     (ws \<noteq> [] \<longrightarrow> 20 \<le> length (fbytes f') \<and>
        take 8 (drop 12 (fbytes f')) = le64 (size_rz h') \<and> writable f' \<and> wbuf f' = [])"
proof (induction ws arbitrary: h f zs)
  case Nil
  then show ?case by simp
next
  case (Cons w ws)
  obtain data len where w: "w = (data, len)" by (cases w) auto
  from Cons.prems(6) w obtain h1 where
    1: "Write cd h data len = Inr (h1, len)" and 2: "Writes cd h1 ws = Inr (h', map snd ws)"
    by (auto split: sum.splits)
  from Cons.prems(5) w have len: "unat len = length data" by simp
  from Write_layout [OF Cons.prems(1,2,3,4) len 1] obtain f1 where
    f1: "file_rz h1 = Some f1"
    "stream_layout f1 m (zs @ map (zipped_of cd m) (chunks_of (unat m) data))"
    "maxChunkSize h1 = m" "20 \<le> length (fbytes f1)"
    "take 8 (drop 12 (fbytes f1)) = le64 (size_rz h1)" "writable f1" "wbuf f1 = []"
    "fname f1 = fname f"
    by blast
  from Cons.prems(5) have all: "\<forall>w\<in>set ws. unat (snd w) = length (fst w)" by simp
  from Cons.IH [OF f1(1,2,3) Cons.prems(4) all 2] obtain f' where
    f': "file_rz h' = Some f'"
    "stream_layout f' m ((zs @ map (zipped_of cd m) (chunks_of (unat m) data)) @
        map (zipped_of cd m) (concat (map (\<lambda>w. chunks_of (unat m) (fst w)) ws)))"
    "fname f' = fname f1"
    "ws \<noteq> [] \<longrightarrow> 20 \<le> length (fbytes f') \<and>
        take 8 (drop 12 (fbytes f')) = le64 (size_rz h') \<and> writable f' \<and> wbuf f' = []"
    by blast
  have e: "ws = [] \<Longrightarrow> h' = h1" using 2 by simp
  have "20 \<le> length (fbytes f') \<and> take 8 (drop 12 (fbytes f')) = le64 (size_rz h') \<and>
        writable f' \<and> wbuf f' = []"
  proof (cases "ws = []")
    case True
    with e f1 f'(1) show ?thesis by simp
  next
    case False
    with f'(4) show ?thesis by simp
  qed
  with f' f1(8) w show ?case by simp
qed

lemma layout_bytes:
  assumes "stream_layout f m zs" "20 \<le> length (fbytes f)" "take 8 (drop 12 (fbytes f)) = s"
    and "wbuf f = []"
  shows "fbytes f = RZipHeader @ le32 m @ s @ concat (map frame zs)"
proof -
  from assms(4) have c: "contents f = fbytes f" by (simp add: contents_def)
  have "take 12 (fbytes f) @ take 8 (drop 12 (fbytes f)) @ drop 8 (drop 12 (fbytes f)) = fbytes f"
    by (simp only: append_take_drop_id)
  then have "take 12 (fbytes f) @ take 8 (drop 12 (fbytes f)) @ drop 20 (fbytes f) = fbytes f"
    by simp
  with assms(1,3) show ?thesis by (simp add: stream_layout_def c)
qed

lemma Open_write_layout:
  assumes "Open d h0 path True = Inr (d', True, h)"
  shows "\<exists>f. file_rz h = Some f \<and> stream_layout f 1048576 [] \<and> maxChunkSize h = 1048576 \<and>
             fname f = path \<and> size_rz h = 0 \<and> file_rz h0 = None"
proof -
  from assms have n: "file_rz h0 = None" by (auto simp: Open_def split: if_splits)
  let ?f0 = "\<lparr>fbytes = [], fpos = 0, writable = True, quota = capacity d, fname = path,
               wbuf = [], bufsize = bufsiz d\<rparr>"
  from assms n obtain f1 f2 f3 where
    w: "fwrite ?f0 RZipHeader = (f1, True)" "fwrite f1 (le32 1048576) = (f2, True)"
    and sk: "fseek_cur f2 8 = (f3, True)"
    and h: "h = h0\<lparr>writing := True, size_rz := 0, maxChunkSize := 1048576,
                  file_rz := Some f3\<rparr>"
    by (auto simp: Open_def fopen_def Open_write_def Close_def Let_def
        split: prod.splits bool.splits if_splits)
  have c0: "contents ?f0 = []" by (simp add: contents_def)
  from fwrite_True [OF w(1)]
  have f1: "contents f1 = RZipHeader" "fpos f1 = 8" "length (wbuf f1) \<le> fpos f1"
    "fname f1 = path"
    unfolding c0 using store_append [of "[]" RZipHeader] by simp_all
  from fwrite_True [OF w(2) f1(3)]
  have f2: "contents f2 = RZipHeader @ le32 1048576" "fpos f2 = 12"
    "length (wbuf f2) \<le> fpos f2" "fname f2 = path"
    unfolding f1 using store_append [of RZipHeader "le32 1048576"] by simp_all
  from fseek_cur_True [OF sk f2(3)]
  have f3: "wbuf f3 = []" "fpos f3 = 20" "fbytes f3 = RZipHeader @ le32 1048576"
    "fname f3 = path"
    unfolding f2 by simp_all
  then have "contents f3 = RZipHeader @ le32 1048576" by (simp add: contents_def)
  with f3 n show ?thesis unfolding h by (simp add: stream_layout_def)
qed

text \<open>
  C6, as the code has it.  Each Write call chunks its own data: when every call accepts
  all of its data, the archive is the header followed by the frames of the first call,
  then those of the second, and so on, and the frames of one call hold the compressed
  forms of consecutive blocks of that call's data, each of exactly the maximum chunk size
  except possibly the last block of that call, which holds the rest.  With a codec whose
  \<^verbatim>\<open>uncompress\<close> inverts \<^verbatim>\<open>compress\<close>, every frame decompresses to its block.
\<close>

theorem chunks_per_write_call:
  assumes "Open d h0 path True = Inr (d', True, h)"
    and "Writes cd h ws = Inr (h', map snd ws)"
    and "\<forall>w\<in>set ws. unat (snd w) = length (fst w)"
    and "ws \<noteq> []"
  shows "fbytes (stream_of h') =
           RZipHeader @ le32 1048576 @ le64 (size_rz h') @
           concat (map frame (map (zipped_of cd 1048576)
                                  (concat (map (\<lambda>w. chunks_of 1048576 (fst w)) ws)))) \<and>
         (\<forall>w\<in>set ws.
            concat (chunks_of 1048576 (fst w)) = fst w \<and>
            (\<forall>c\<in>set (butlast (chunks_of 1048576 (fst w))). length c = 1048576) \<and>
            (\<forall>c\<in>set (chunks_of 1048576 (fst w)). 0 < length c \<and> length c \<le> 1048576 \<and>
               (codec_inverse cd 1048576 \<longrightarrow>
                  uncompress cd 1048576 (zipped_of cd 1048576 c) = (Z_OK, c))))"
proof -
  have u: "unat (1048576::u32) = 1048576" by simp
  from Open_write_layout [OF assms(1)] obtain f where
    f: "file_rz h = Some f" "stream_layout f 1048576 []" "maxChunkSize h = 1048576" by blast
  from Writes_layout [OF f _ assms(3,2)] assms(4) obtain f' where
    f': "file_rz h' = Some f'"
    "stream_layout f' 1048576
       ([] @ map (zipped_of cd 1048576)
               (concat (map (\<lambda>w. chunks_of (unat (1048576::u32)) (fst w)) ws)))"
    "20 \<le> length (fbytes f')" "take 8 (drop 12 (fbytes f')) = le64 (size_rz h')"
    "wbuf f' = []"
    by auto
  have s: "stream_of h' = f'" using f'(1) by (simp add: stream_of_def)
  from layout_bytes [OF f'(2,3,4,5)] have 1: "fbytes (stream_of h') =
           RZipHeader @ le32 1048576 @ le64 (size_rz h') @
           concat (map frame (map (zipped_of cd 1048576)
                                  (concat (map (\<lambda>w. chunks_of 1048576 (fst w)) ws))))"
    unfolding s u by simp
  have 2: "concat (chunks_of 1048576 xs) = xs" for xs by (rule concat_chunks_of) simp
  have 3: "\<forall>c\<in>set (butlast (chunks_of 1048576 xs)). length c = 1048576" for xs
    using chunks_of_butlast by blast
  have 4: "\<forall>c\<in>set (chunks_of 1048576 xs). 0 < length c \<and> length c \<le> 1048576 \<and>
               (codec_inverse cd 1048576 \<longrightarrow>
                  uncompress cd 1048576 (zipped_of cd 1048576 c) = (Z_OK, c))" for xs
    using chunks_of_lengths [of _ 1048576 xs] u unfolding codec_inverse_def by auto
  from 1 2 3 4 show ?thesis by blast
qed

lemma stored_inverse: "codec_inverse stored_codec 1048576"
  by (simp add: codec_inverse_def zipped_of_def stored_codec_def stored_compress_def
      stored_uncompress_def)

lemma Open_small_disk:
  "Open small_disk closed_handle ''w.state'' True =
     Inr (small_disk\<lparr>files := (files small_disk)(''w.state'' \<mapsto> [])\<rparr>, True, small_write_handle)"
proof -
  have a: "file_rz closed_handle = None" by (simp add: closed_handle_def)
  have b: "12 \<le> capacity small_disk" "12 \<le> bufsiz small_disk"
    by (simp_all add: small_disk_def)
  show ?thesis
    unfolding Open_write_ok [OF a b] by (simp add: small_write_handle_def small_disk_def)
qed

theorem chunks_per_write_call_witness:
  "Open small_disk closed_handle ''w.state'' True =
     Inr (small_disk\<lparr>files := (files small_disk)(''w.state'' \<mapsto> [])\<rparr>, True, small_write_handle) \<and>
   (\<exists>h'. Writes stored_codec small_write_handle [([1, 2, 3], 3)] = Inr (h', [3]) \<and>
      fbytes (stream_of h') =
        RZipHeader @ le32 1048576 @ le64 3 @ frame (zipped_of stored_codec 1048576 [1, 2, 3]) \<and>
      chunks_of 1048576 [1, 2, 3] = [[1, 2, 3]] \<and>
      uncompress stored_codec 1048576 (zipped_of stored_codec 1048576 [1, 2, 3]) =
        (Z_OK, [1, 2, 3]))"
proof -
  let ?ws = "[([1, 2, 3], 3)] :: (u8 list \<times> u32) list"
  have "case Writes stored_codec small_write_handle ?ws of
          Inr (h', ns) \<Rightarrow> ns = [3] \<and> size_rz h' = 3
        | Inl e \<Rightarrow> False"
    by (simp add: write_eval small_write_handle_def)
  then obtain h' where
    w: "Writes stored_codec small_write_handle ?ws = Inr (h', map snd ?ws)" and s: "size_rz h' = 3"
    by (auto split: sum.splits)
  have a: "\<forall>w\<in>set ?ws. unat (snd w) = length (fst w)" by simp
  have c: "chunks_of 1048576 [1, 2, 3 :: u8] = [[1, 2, 3]]" by (simp add: chunks_of.simps)
  note t = chunks_per_write_call [OF Open_small_disk w a]
  from t have 1: "fbytes (stream_of h') =
        RZipHeader @ le32 1048576 @ le64 3 @ frame (zipped_of stored_codec 1048576 [1, 2, 3])"
    unfolding s by (simp add: c)
  from t stored_inverse
  have 2: "uncompress stored_codec 1048576 (zipped_of stored_codec 1048576 [1, 2, 3]) =
        (Z_OK, [1, 2, 3])"
    by (simp add: c)
  from Open_small_disk w 1 2 c show ?thesis by simp
qed

text \<open>
  Two Write calls of one byte each give an archive of two frames.  The first frame is not
  the last, and it decompresses to one byte, not to the maximum chunk size.
\<close>

theorem chunk_uniformity_counterexample:
  "two_small_writes =
     Inr (RZipHeader @ le32 1048576 @ le64 2 @ frame [0x78, 1] @ frame [0x78, 2], [1, 1]) \<and>
   uncompress stored_codec 1048576 [0x78, 1] = (Z_OK, [1]) \<and>
   length [1 :: u8] \<noteq> 1048576"
  by (simp add: two_small_writes_def write_eval small_write_handle_def frame_def
      stored_uncompress_def)

section \<open>Zero-length frames\<close>

lemma split_bytes:
  fixes n :: nat
  assumes "n < 2 ^ 32"
  shows "n mod 256 + 256 * ((n div 2 ^ 8) mod 256 + 256 * ((n div 2 ^ 16) mod 256
      + 256 * ((n div 2 ^ 24) mod 256 + 256 * 0))) = n"
proof -
  define a where "a = n div 256"
  define b where "b = a div 256"
  define c where "c = b div 256"
  have d8: "n div 2 ^ 8 = a" by (simp add: a_def)
  have d16: "n div 2 ^ 16 = b"
    unfolding b_def a_def div_mult2_eq [symmetric] by simp
  have d24: "n div 2 ^ 24 = c"
    unfolding c_def b_def a_def div_mult2_eq [symmetric] by simp
  have c: "c < 256" using assms unfolding d24 [symmetric] by (simp add: less_mult_imp_div_less)
  have 1: "n = n mod 256 + 256 * a" unfolding a_def by simp
  have 2: "a = a mod 256 + 256 * b" unfolding b_def by simp
  have 3: "b = b mod 256 + 256 * c" unfolding c_def by simp
  have 4: "c mod 256 = c" using c by simp
  have "n mod 256 + 256 * (a mod 256 + 256 * (b mod 256 + 256 * (c mod 256 + 256 * 0))) = n"
    unfolding 4 using 1 2 3 by simp
  then show ?thesis unfolding d8 d16 d24 .
qed

lemma from_le_le32: "from_le (le32 w) = unat w"
proof -
  have b: "unat w < 2 ^ 32" using unsigned_less [of w, where 'a = nat] by simp
  have 1: "unat (ucast w :: u8) = unat w mod 256"
    by (simp add: unsigned_ucast_eq take_bit_eq_mod)
  have 2: "unat (ucast (drop_bit 8 w) :: u8) = (unat w div 2 ^ 8) mod 256"
    "unat (ucast (drop_bit 16 w) :: u8) = (unat w div 2 ^ 16) mod 256"
    "unat (ucast (drop_bit 24 w) :: u8) = (unat w div 2 ^ 24) mod 256"
    by (simp_all add: unsigned_ucast_eq take_bit_eq_mod drop_bit_eq_div unat_div)
  show ?thesis
    unfolding le32_def from_le.simps 1 2 by (rule split_bytes [OF b])
qed

lemma le32_dec_le32: "le32_dec (le32 w) = w"
  by (simp add: le32_dec_def from_le_le32)

lemma rest_of_advance: "rest_of (f\<lparr>fpos := fpos f + n\<rparr>) = drop n (rest_of f)"
  by (simp add: rest_of_def add.commute)

lemma fread_rest_ok:
  "\<not> writable f \<Longrightarrow> 0 < n \<Longrightarrow> n \<le> length (rest_of f) \<Longrightarrow>
   fread f n = (f\<lparr>fpos := fpos f + n\<rparr>, Some (take n (rest_of f)))"
  by (auto simp: fread_def rest_of_def)

lemma fread_rest_fail:
  "\<not> writable f \<Longrightarrow> length (rest_of f) < n \<Longrightarrow>
   fread f n = (f\<lparr>fpos := max (fpos f) (length (fbytes f))\<rparr>, None) \<and>
   rest_of (f\<lparr>fpos := max (fpos f) (length (fbytes f))\<rparr>) = []"
  by (auto simp: fread_def rest_of_def)

lemma fread_same_ahead:
  assumes "same_ahead f1 f2"
  shows "\<exists>f1' f2' r. fread f1 n = (f1', r) \<and> fread f2 n = (f2', r) \<and> same_ahead f1' f2'"
proof -
  from assms have w: "\<not> writable f1" "\<not> writable f2" and e: "rest_of f1 = rest_of f2"
    by (simp_all add: same_ahead_def)
  consider "n = 0" | "0 < n" "n \<le> length (rest_of f1)" | "length (rest_of f1) < n"
    by linarith
  then show ?thesis
  proof cases
    case 1
    with assms show ?thesis by (simp add: fread_def)
  next
    case 2
    from fread_rest_ok [OF w(1) 2] fread_rest_ok [OF w(2) 2 [unfolded e]] w e
    show ?thesis by (simp add: same_ahead_def rest_of_advance)
  next
    case 3
    from fread_rest_fail [OF w(1) 3] fread_rest_fail [OF w(2) 3 [unfolded e]] w
    show ?thesis by (simp add: same_ahead_def)
  qed
qed

lemma Read_body_same_ahead:
  assumes "same_ahead f1 f2"
  shows "(\<exists>h' f1' f2' d' rv'. Read_body cd h f1 data len rv = Break (h', f1', d', rv') \<and>
            Read_body cd h f2 data len rv = Break (h', f2', d', rv') \<and> same_ahead f1' f2') \<or>
         (\<exists>h' f1' f2' d' rv'. Read_body cd h f1 data len rv = Next (h', f1', d', rv') \<and>
            Read_body cd h f2 data len rv = Next (h', f2', d', rv') \<and> same_ahead f1' f2')"
proof (cases "chunkIndex h = chunkSize h")
  case False
  with assms show ?thesis by (simp add: Read_body_def Let_def)
next
  case True
  from fread_same_ahead [OF assms, of 4] obtain f1a f2a r where
    a: "fread f1 4 = (f1a, r)" "fread f2 4 = (f2a, r)" "same_ahead f1a f2a" by blast
  show ?thesis
  proof (cases r)
    case None
    with True a show ?thesis by (simp add: Read_body_def Let_def)
  next
    case (Some zs)
    show ?thesis
    proof (cases "le32_dec zs = 0")
      case z: True
      with Some True a show ?thesis by (simp add: Read_body_def Let_def)
    next
      case nz: False
      from fread_same_ahead [OF a(3), of "unat (le32_dec zs)"] obtain f1b f2b r' where
        b: "fread f1a (unat (le32_dec zs)) = (f1b, r')"
           "fread f2a (unat (le32_dec zs)) = (f2b, r')" "same_ahead f1b f2b" by blast
      from nz Some True a b show ?thesis
        by (cases r') (simp_all add: Read_body_def Let_def split: prod.splits)
    qed
  qed
qed

lemma Read_loop_same_ahead:
  "same_ahead f1 f2 \<Longrightarrow>
   \<exists>h' f1' f2' d' rv'. Read_loop cd h f1 data len rv = (h', f1', d', rv') \<and>
      Read_loop cd h f2 data len rv = (h', f2', d', rv') \<and> same_ahead f1' f2'"
proof (induction cd h f1 data len rv arbitrary: f2 rule: Read_loop.induct)
  case (1 cd h f1 data len rv)
  show ?case
  proof (cases "rv < len")
    case False
    with "1.prems" show ?thesis by (simp add: Read_loop.simps)
  next
    case True
    from Read_body_same_ahead [OF "1.prems", of cd h data len rv]
    show ?thesis
    proof (elim disjE exE conjE)
      fix h' f1' f2' d' rv'
      assume "Read_body cd h f1 data len rv = Break (h', f1', d', rv')"
        "Read_body cd h f2 data len rv = Break (h', f2', d', rv')" "same_ahead f1' f2'"
      with True show ?thesis
        by (simp add: Read_loop.simps [of cd h _ data len rv])
    next
      fix h' f1' f2' d' rv'
      assume b: "Read_body cd h f1 data len rv = Next (h', f1', d', rv')"
        "Read_body cd h f2 data len rv = Next (h', f2', d', rv')" and s: "same_ahead f1' f2'"
      from "1.IH" [OF True b(1) refl refl refl s] True b show ?thesis
        by (simp add: Read_loop.simps [of cd h _ data len rv])
    qed
  qed
qed

lemma length_frame: "length (frame z) = 4 + length z"
  by (simp add: frame_def)

lemma unat_of_nat_length: "length z < 2 ^ 32 \<Longrightarrow> unat (of_nat (length z) :: u32) = length z"
  by (simp add: unat_of_nat)

lemma fread_frame:
  assumes "\<not> writable f" "rest_of f = frame z @ r" "length z < 2 ^ 32"
  shows "\<exists>fa. fread f 4 = (fa, Some (le32 (of_nat (length z)))) \<and> \<not> writable fa \<and>
           rest_of fa = z @ r \<and>
           (z \<noteq> [] \<longrightarrow> (\<exists>fb. fread fa (length z) = (fb, Some z) \<and> \<not> writable fb \<and>
                                rest_of fb = r))"
proof -
  let ?fa = "f\<lparr>fpos := fpos f + 4\<rparr>"
  have 1: "fread f 4 = (?fa, Some (le32 (of_nat (length z))))"
    using fread_rest_ok [OF assms(1), of 4] assms(2) by (simp add: frame_def)
  have 2: "rest_of ?fa = z @ r" unfolding rest_of_advance assms(2) by (simp add: frame_def)
  have w: "\<not> writable ?fa" using assms(1) by simp
  have 3: "\<exists>fb. fread ?fa (length z) = (fb, Some z) \<and> \<not> writable fb \<and> rest_of fb = r"
    if "z \<noteq> []"
    using fread_rest_ok [OF w, of "length z"] that 2 w
      rest_of_advance [of ?fa "length z"] by simp
  from 1 2 w 3 show ?thesis by blast
qed

lemma Read_body_frame_ahead:
  assumes "\<not> writable f1" "rest_of f1 = frame z @ r1"
    and "\<not> writable f2" "rest_of f2 = frame z @ r2"
    and "length z < 2 ^ 32" "chunkIndex h = chunkSize h"
  shows "(\<exists>h' f1' f2' d' rv'. Read_body cd h f1 data len rv = Break (h', f1', d', rv') \<and>
            Read_body cd h f2 data len rv = Break (h', f2', d', rv') \<and>
            \<not> writable f1' \<and> \<not> writable f2' \<and> rest_of f1' = r1 \<and> rest_of f2' = r2) \<or>
         (\<exists>h' f1' f2' d' rv'. Read_body cd h f1 data len rv = Next (h', f1', d', rv') \<and>
            Read_body cd h f2 data len rv = Next (h', f2', d', rv') \<and>
            \<not> writable f1' \<and> \<not> writable f2' \<and> rest_of f1' = r1 \<and> rest_of f2' = r2)"
proof -
  from fread_frame [OF assms(1,2,5)] obtain f1a where
    a1: "fread f1 4 = (f1a, Some (le32 (of_nat (length z))))" "\<not> writable f1a"
      "rest_of f1a = z @ r1"
      "z \<noteq> [] \<longrightarrow> (\<exists>fb. fread f1a (length z) = (fb, Some z) \<and> \<not> writable fb \<and> rest_of fb = r1)"
    by blast
  from fread_frame [OF assms(3,4,5)] obtain f2a where
    a2: "fread f2 4 = (f2a, Some (le32 (of_nat (length z))))" "\<not> writable f2a"
      "rest_of f2a = z @ r2"
      "z \<noteq> [] \<longrightarrow> (\<exists>fb. fread f2a (length z) = (fb, Some z) \<and> \<not> writable fb \<and> rest_of fb = r2)"
    by blast
  note u = unat_of_nat_length [OF assms(5)]
  show ?thesis
  proof (cases "z = []")
    case True
    with a1 a2 assms(6) show ?thesis
      by (simp add: Read_body_def Let_def le32_dec_le32)
  next
    case False
    then have nz: "(of_nat (length z) :: u32) \<noteq> 0"
      using u by (metis length_0_conv unat_0)
    from False a1(4) obtain f1b where
      b1: "fread f1a (length z) = (f1b, Some z)" "\<not> writable f1b" "rest_of f1b = r1" by blast
    from False a2(4) obtain f2b where
      b2: "fread f2a (length z) = (f2b, Some z)" "\<not> writable f2b" "rest_of f2b = r2" by blast
    from nz a1 a2 b1 b2 assms(6) show ?thesis
      by (simp add: Read_body_def Let_def le32_dec_le32 u split: prod.splits)
  qed
qed

lemma Read_body_exhausted:
  "chunkIndex h = chunkSize h \<Longrightarrow>
   Read_body cd (h\<lparr>chunkSize := 0, chunkIndex := 0\<rparr>) f data len rv =
   Read_body cd h f data len rv"
  by (simp add: Read_body_def Let_def)

lemma same_ahead_inserted: "same_ahead f1 f2 \<Longrightarrow> zero_frame_inserted rest f1 f2"
  by (simp add: same_ahead_def zero_frame_inserted_def)

lemma Read_loop_zero_frame:
  "zero_frame_inserted rest f1 f2 \<Longrightarrow>
   \<exists>h' f1' f2' d' rv'. Read_loop cd h f1 data len rv = (h', f1', d', rv') \<and>
      Read_loop cd h f2 data len rv = (h', f2', d', rv') \<and> zero_frame_inserted rest f1' f2'"
proof (induction cd h f1 data len rv arbitrary: f2 rule: Read_loop.induct)
  case (1 cd h f1 data len rv)
  from "1.prems" have w: "\<not> writable f1" "\<not> writable f2"
    by (simp_all add: zero_frame_inserted_def)
  show ?case
  proof (cases "rv < len")
    case False
    with "1.prems" show ?thesis by (simp add: Read_loop.simps)
  next
    case True
    show ?thesis
    proof (cases "rest_of f1 = rest_of f2")
      case same: True
      with w have "same_ahead f1 f2" by (simp add: same_ahead_def)
      from Read_loop_same_ahead [OF this, of cd h data len rv] same_ahead_inserted
      show ?thesis by blast
    next
      case False
      with "1.prems" obtain zs where zs: "\<forall>z\<in>set zs. length z < 2 ^ 32"
        "rest_of f1 = concat (map frame zs) @ rest"
        "rest_of f2 = concat (map frame zs) @ frame [] @ rest"
        by (auto simp: zero_frame_inserted_def)
      show ?thesis
      proof (cases "chunkIndex h = chunkSize h")
        case ne: False
        then obtain h1 d1 rv1 where
          b: "Read_body cd h f1 data len rv = Next (h1, f1, d1, rv1)"
             "Read_body cd h f2 data len rv = Next (h1, f2, d1, rv1)"
          by (simp add: Read_body_def Let_def)
        from "1.IH" [OF True b(1) refl refl refl "1.prems"] True b show ?thesis
          by (simp add: Read_loop.simps [of cd h _ data len rv])
      next
        case eq: True
        show ?thesis
        proof (cases zs)
          case Nil
          with zs have r: "rest_of f2 = frame [] @ rest" "rest_of f1 = rest"
            by simp_all
          have "\<exists>f2'. Read_body cd h f2 data len rv =
                  Next (h\<lparr>chunkSize := 0, chunkIndex := 0\<rparr>, f2', data, rv) \<and>
                  \<not> writable f2' \<and> rest_of f2' = rest"
            using fread_frame [OF w(2) r(1)] eq
            by (auto simp: Read_body_def Let_def le32_dec_le32)
          then obtain f2' where b2: "Read_body cd h f2 data len rv =
                  Next (h\<lparr>chunkSize := 0, chunkIndex := 0\<rparr>, f2', data, rv)"
            and f2': "\<not> writable f2'" "rest_of f2' = rest" by blast
          let ?h0 = "h\<lparr>chunkSize := 0, chunkIndex := 0\<rparr>"
          have l2: "Read_loop cd h f2 data len rv = Read_loop cd ?h0 f2' data len rv"
            using True b2 by (simp add: Read_loop.simps [of cd h f2 data len rv])
          have l1: "Read_loop cd h f1 data len rv = Read_loop cd ?h0 f1 data len rv"
            using True Read_body_exhausted [OF eq, of cd f1 data len rv]
            by (simp add: Read_loop.simps [of cd _ f1 data len rv])
          have "same_ahead f1 f2'" using w f2' r(2) by (simp add: same_ahead_def)
          from Read_loop_same_ahead [OF this, of cd ?h0 data len rv] same_ahead_inserted
          show ?thesis unfolding l1 l2 by blast
        next
          case (Cons z zs')
          with zs have r: "rest_of f1 = frame z @ (concat (map frame zs') @ rest)"
            "rest_of f2 = frame z @ (concat (map frame zs') @ frame [] @ rest)"
            and lz: "length z < 2 ^ 32" and zs': "\<forall>z\<in>set zs'. length z < 2 ^ 32"
            by simp_all
          have rel: "zero_frame_inserted rest f1' f2'"
            if "\<not> writable f1'" "\<not> writable f2'" "rest_of f1' = concat (map frame zs') @ rest"
              "rest_of f2' = concat (map frame zs') @ frame [] @ rest" for f1' f2'
            using that zs' unfolding zero_frame_inserted_def by blast
          from Read_body_frame_ahead [OF w(1) r(1) w(2) r(2) lz eq, of cd data len rv]
          show ?thesis
          proof (elim disjE exE conjE)
            fix h' f1' f2' d' rv'
            assume b: "Read_body cd h f1 data len rv = Break (h', f1', d', rv')"
              "Read_body cd h f2 data len rv = Break (h', f2', d', rv')"
              and f: "\<not> writable f1'" "\<not> writable f2'"
              "rest_of f1' = concat (map frame zs') @ rest"
              "rest_of f2' = concat (map frame zs') @ frame [] @ rest"
            from True b rel [OF f] show ?thesis
              by (simp add: Read_loop.simps [of cd h _ data len rv])
          next
            fix h' f1' f2' d' rv'
            assume b: "Read_body cd h f1 data len rv = Next (h', f1', d', rv')"
              "Read_body cd h f2 data len rv = Next (h', f2', d', rv')"
              and f: "\<not> writable f1'" "\<not> writable f2'"
              "rest_of f1' = concat (map frame zs') @ rest"
              "rest_of f2' = concat (map frame zs') @ frame [] @ rest"
            from "1.IH" [OF True b(1) refl refl refl rel [OF f]] True b show ?thesis
              by (simp add: Read_loop.simps [of cd h _ data len rv])
          qed
        qed
      qed
    qed
  qed
qed

lemma Read_body_file_rz:
  "Read_body cd (h\<lparr>file_rz := x\<rparr>) f data len rv =
     map_iter (\<lambda>(h', r). (h'\<lparr>file_rz := x\<rparr>, r)) (Read_body cd h f data len rv)"
  by (simp add: Read_body_def Let_def split: prod.splits option.splits)

lemma Read_loop_file_rz:
  "Read_loop cd (h\<lparr>file_rz := x\<rparr>) f data len rv =
     (case Read_loop cd h f data len rv of (h', r) \<Rightarrow> (h'\<lparr>file_rz := x\<rparr>, r))"
proof (induction cd h f data len rv rule: Read_loop.induct)
  case (1 cd h f data len rv)
  show ?case
  proof (cases "rv < len")
    case False
    then show ?thesis by (simp add: Read_loop.simps)
  next
    case True
    show ?thesis
    proof (cases "Read_body cd h f data len rv")
      case (Break r)
      with True show ?thesis
        by (cases r) (simp add: Read_loop.simps [of cd _ f data len rv] Read_body_file_rz)
    next
      case (Next r)
      obtain h1 f1 d1 rv1 where r: "r = (h1, f1, d1, rv1)" by (cases r) auto
      from "1.IH" [OF True Next r [symmetric] refl refl] True Next r show ?thesis
        by (simp add: Read_loop.simps [of cd _ f data len rv] Read_body_file_rz)
    qed
  qed
qed

lemma Read_via_base:
  assumes "file_rz h = Some f"
  shows "Read cd h data len =
           (case Read_loop cd (h\<lparr>file_rz := None\<rparr>) f data len 0 of
              (h', f', d', n) \<Rightarrow> Inr (h'\<lparr>file_rz := Some f'\<rparr>, d', n))"
proof -
  have "h = (h\<lparr>file_rz := None\<rparr>)\<lparr>file_rz := Some f\<rparr>" using assms by simp
  then have "Read_loop cd h f data len 0 =
      (case Read_loop cd (h\<lparr>file_rz := None\<rparr>) f data len 0 of
         (h', r) \<Rightarrow> (h'\<lparr>file_rz := Some f\<rparr>, r))"
    using Read_loop_file_rz [where h = "h\<lparr>file_rz := None\<rparr>" and x = "Some f"] by simp
  with assms show ?thesis by (simp add: Read_def split: prod.splits)
qed

lemma Read_zero_frame:
  assumes "file_rz h1 = Some f1" "file_rz h2 = Some f2"
    and "h1\<lparr>file_rz := None\<rparr> = h2\<lparr>file_rz := None\<rparr>" "zero_frame_inserted rest f1 f2"
  shows "\<exists>g1 g2 f1' f2' d' n. Read cd h1 data len = Inr (g1, d', n) \<and>
           Read cd h2 data len = Inr (g2, d', n) \<and> file_rz g1 = Some f1' \<and>
           file_rz g2 = Some f2' \<and> g1\<lparr>file_rz := None\<rparr> = g2\<lparr>file_rz := None\<rparr> \<and>
           zero_frame_inserted rest f1' f2'"
proof -
  from Read_loop_zero_frame [OF assms(4), of cd "h1\<lparr>file_rz := None\<rparr>" data len 0]
  obtain h' f1' f2' d' n where
    l: "Read_loop cd (h1\<lparr>file_rz := None\<rparr>) f1 data len 0 = (h', f1', d', n)"
       "Read_loop cd (h1\<lparr>file_rz := None\<rparr>) f2 data len 0 = (h', f2', d', n)"
       "zero_frame_inserted rest f1' f2'" by blast
  have 1: "Read cd h1 data len = Inr (h'\<lparr>file_rz := Some f1'\<rparr>, d', n)"
    unfolding Read_via_base [OF assms(1)] l by simp
  have 2: "Read cd h2 data len = Inr (h'\<lparr>file_rz := Some f2'\<rparr>, d', n)"
    unfolding Read_via_base [OF assms(2)] assms(3) [symmetric] l by simp
  from 1 2 l(3) show ?thesis by simp
qed

lemma Skip_zero_frame:
  assumes "file_rz h1 = Some f1" "file_rz h2 = Some f2"
    and "h1\<lparr>file_rz := None\<rparr> = h2\<lparr>file_rz := None\<rparr>" "zero_frame_inserted rest f1 f2"
  shows "\<exists>g1 g2 f1' f2' n. Skip cd h1 len = Inr (g1, n) \<and>
           Skip cd h2 len = Inr (g2, n) \<and> file_rz g1 = Some f1' \<and>
           file_rz g2 = Some f2' \<and> g1\<lparr>file_rz := None\<rparr> = g2\<lparr>file_rz := None\<rparr> \<and>
           zero_frame_inserted rest f1' f2'"
proof -
  from Read_zero_frame [OF assms, of cd "[]" len] obtain g1 g2 f1' f2' d' n where
    r: "Read cd h1 [] len = Inr (g1, d', n)" "Read cd h2 [] len = Inr (g2, d', n)"
    "file_rz g1 = Some f1'" "file_rz g2 = Some f2'"
    "g1\<lparr>file_rz := None\<rparr> = g2\<lparr>file_rz := None\<rparr>" "zero_frame_inserted rest f1' f2'"
    by blast
  have "Skip cd h1 len = Inr (g1, n)" "Skip cd h2 len = Inr (g2, n)"
    unfolding Skip_eq_Read [of cd _ len "[]"] r by simp_all
  with r show ?thesis by blast
qed

lemma run_ops_zero_frame:
  "file_rz h1 = Some f1 \<Longrightarrow> file_rz h2 = Some f2 \<Longrightarrow>
   h1\<lparr>file_rz := None\<rparr> = h2\<lparr>file_rz := None\<rparr> \<Longrightarrow> zero_frame_inserted rest f1 f2 \<Longrightarrow>
   \<exists>g1 g2 os. run_ops cd h1 ops = Inr (g1, os) \<and> run_ops cd h2 ops = Inr (g2, os)"
proof (induction ops arbitrary: h1 h2 f1 f2)
  case Nil
  then show ?case by simp
next
  case (Cons a ops)
  show ?case
  proof (cases a)
    case (ReadOp data len)
    from Read_zero_frame [OF Cons.prems, of cd data len] obtain g1 g2 f1' f2' d' n where
      r: "Read cd h1 data len = Inr (g1, d', n)" "Read cd h2 data len = Inr (g2, d', n)"
      "file_rz g1 = Some f1'" "file_rz g2 = Some f2'"
      "g1\<lparr>file_rz := None\<rparr> = g2\<lparr>file_rz := None\<rparr>" "zero_frame_inserted rest f1' f2'"
      by blast
    from Cons.IH [OF r(3,4,5,6)] obtain k1 k2 os where
      "run_ops cd g1 ops = Inr (k1, os)" "run_ops cd g2 ops = Inr (k2, os)" by blast
    with ReadOp r(1,2) show ?thesis by simp
  next
    case (SkipOp len)
    from Skip_zero_frame [OF Cons.prems, of cd len] obtain g1 g2 f1' f2' n where
      r: "Skip cd h1 len = Inr (g1, n)" "Skip cd h2 len = Inr (g2, n)"
      "file_rz g1 = Some f1'" "file_rz g2 = Some f2'"
      "g1\<lparr>file_rz := None\<rparr> = g2\<lparr>file_rz := None\<rparr>" "zero_frame_inserted rest f1' f2'"
      by blast
    from Cons.IH [OF r(3,4,5,6)] obtain k1 k2 os where
      "run_ops cd g1 ops = Inr (k1, os)" "run_ops cd g2 ops = Inr (k2, os)" by blast
    with SkipOp r(1,2) show ?thesis by simp
  qed
qed

text \<open>
  C4.  When pulling a frame finds a length of zero, the pass through the loop body only
  resets offset and fill and moves the stream four bytes on, whatever the codec is.  And
  for two read handles that agree in everything but their streams, where the first stream
  has complete frames \<open>zs\<close> and then \<open>rest\<close> ahead and the second has the same with a
  zero-length frame between them, every sequence of Read and Skip calls returns, and the
  destinations and values returned are the same on both.
\<close>

theorem zero_frames_transparent:
  assumes "file_rz h1 = Some f1" "file_rz h2 = Some f2"
    and "h1\<lparr>file_rz := None\<rparr> = h2\<lparr>file_rz := None\<rparr>"
    and "\<not> writable f1" "\<not> writable f2" "\<forall>z\<in>set zs. length z < 2 ^ 32"
    and "rest_of f1 = concat (map frame zs) @ rest"
    and "rest_of f2 = concat (map frame zs) @ frame [] @ rest"
  shows "(\<exists>os. observations (run_ops cd h1 ops) = Inr os \<and>
               observations (run_ops cd h2 ops) = Inr os) \<and>
         (chunkIndex h = chunkSize h \<and> \<not> writable f \<and> rest_of f = frame [] @ r \<longrightarrow>
            Read_body cd h f data len rv =
              Next (h\<lparr>chunkSize := 0, chunkIndex := 0\<rparr>, f\<lparr>fpos := fpos f + 4\<rparr>, data, rv) \<and>
            Skip_body cd h f len rv =
              Next (h\<lparr>chunkSize := 0, chunkIndex := 0\<rparr>, f\<lparr>fpos := fpos f + 4\<rparr>, rv) \<and>
            rest_of (f\<lparr>fpos := fpos f + 4\<rparr>) = r)"
proof -
  from assms(4-8) have "zero_frame_inserted rest f1 f2"
    unfolding zero_frame_inserted_def by blast
  from run_ops_zero_frame [OF assms(1,2,3) this, of cd ops]
  have 1: "\<exists>os. observations (run_ops cd h1 ops) = Inr os \<and>
               observations (run_ops cd h2 ops) = Inr os"
    by (auto simp: observations_def)
  have 2: "Read_body cd h f data len rv =
              Next (h\<lparr>chunkSize := 0, chunkIndex := 0\<rparr>, f\<lparr>fpos := fpos f + 4\<rparr>, data, rv) \<and>
            Skip_body cd h f len rv =
              Next (h\<lparr>chunkSize := 0, chunkIndex := 0\<rparr>, f\<lparr>fpos := fpos f + 4\<rparr>, rv) \<and>
            rest_of (f\<lparr>fpos := fpos f + 4\<rparr>) = r"
    if a: "chunkIndex h = chunkSize h \<and> \<not> writable f \<and> rest_of f = frame [] @ r"
  proof -
    from a have w: "\<not> writable f" and r: "rest_of f = le32 0 @ r" and e: "chunkIndex h = chunkSize h"
      by (simp_all add: frame_def)
    have fr: "fread f 4 = (f\<lparr>fpos := fpos f + 4\<rparr>, Some (le32 0))"
      using fread_rest_ok [OF w, of 4] r by simp
    have b: "Read_body cd h f data len rv =
              Next (h\<lparr>chunkSize := 0, chunkIndex := 0\<rparr>, f\<lparr>fpos := fpos f + 4\<rparr>, data, rv)"
      using e fr by (simp add: Read_body_def Let_def le32_dec_le32)
    have "Skip_body cd h f len rv =
              Next (h\<lparr>chunkSize := 0, chunkIndex := 0\<rparr>, f\<lparr>fpos := fpos f + 4\<rparr>, rv)"
      unfolding Skip_body_Read_body [of cd h f len rv data] b by (simp add: drop_data_def)
    with b r show ?thesis by (simp add: rest_of_advance)
  qed
  from 1 2 show ?thesis by blast
qed

theorem zero_frames_transparent_witness:
  "file_rz sample_handle = Some (stream_of sample_handle) \<and>
   file_rz padded_handle = Some (stream_of padded_handle) \<and>
   sample_handle\<lparr>file_rz := None\<rparr> = padded_handle\<lparr>file_rz := None\<rparr> \<and>
   \<not> writable (stream_of sample_handle) \<and> \<not> writable (stream_of padded_handle) \<and>
   rest_of (stream_of sample_handle) =
     concat (map frame [[0x78, 1, 2, 3]]) @ frame [0x78, 4, 5] \<and>
   rest_of (stream_of padded_handle) =
     concat (map frame [[0x78, 1, 2, 3]]) @ frame [] @ frame [0x78, 4, 5] \<and>
   observations (run_ops stored_codec sample_handle
      [ReadOp [9, 9] 2, SkipOp 2, ReadOp [9, 9, 9] 3]) =
     Inr [ReadObs [1, 2] 2, SkipObs 2, ReadObs [5, 9, 9] 1] \<and>
   observations (run_ops stored_codec padded_handle
      [ReadOp [9, 9] 2, SkipOp 2, ReadOp [9, 9, 9] 3]) =
     Inr [ReadObs [1, 2] 2, SkipObs 2, ReadObs [5, 9, 9] 1]"
proof -
  let ?ops = "[ReadOp [9, 9] 2, SkipOp 2, ReadOp [9, 9, 9] 3]"
  have a: "file_rz sample_handle = Some (stream_of sample_handle)"
    "file_rz padded_handle = Some (stream_of padded_handle)"
    by code_simp+
  have b: "sample_handle\<lparr>file_rz := None\<rparr> = padded_handle\<lparr>file_rz := None\<rparr>"
    by code_simp
  have c: "\<not> writable (stream_of sample_handle)" "\<not> writable (stream_of padded_handle)"
    by code_simp+
  have d: "\<forall>z\<in>set [[0x78, 1, 2, 3 :: u8]]. length z < 2 ^ 32" by simp
  have e: "rest_of (stream_of sample_handle) =
     concat (map frame [[0x78, 1, 2, 3]]) @ frame [0x78, 4, 5]"
    "rest_of (stream_of padded_handle) =
     concat (map frame [[0x78, 1, 2, 3]]) @ frame [] @ frame [0x78, 4, 5]"
    by code_simp+
  have o: "observations (run_ops stored_codec sample_handle ?ops) =
     Inr [ReadObs [1, 2] 2, SkipObs 2, ReadObs [5, 9, 9] 1]"
    by code_simp
  from zero_frames_transparent [OF a b c d e, THEN conjunct1, of stored_codec ?ops] o
  have "observations (run_ops stored_codec padded_handle ?ops) =
     Inr [ReadObs [1, 2] 2, SkipObs 2, ReadObs [5, 9, 9] 1]"
    by auto
  with a b c e o show ?thesis by blast
qed

section \<open>Reading back what was written\<close>

lemma pending_length:
  "chunkIndex h \<le> chunkSize h \<Longrightarrow> unat (chunkSize h) \<le> length (chunk h) \<Longrightarrow>
   length (pending h) = unat (chunkSize h - chunkIndex h)"
  by (simp add: pending_def unat_sub word_le_nat_alt)

lemma Read_body_stream_copy:
  assumes "reader_at cd h f cs" "rv < len" "chunkIndex h \<noteq> chunkSize h"
  shows "\<exists>h1 l. Read_body cd h f data len rv =
           Next (h1, f, memcpy data (unat rv) (take (unat l) (pending h @ concat cs)), rv + l) \<and>
           l \<le> len - rv \<and> unat l \<le> length (pending h @ concat cs) \<and>
           reader_at cd h1 f cs \<and>
           pending h1 @ concat cs = drop (unat l) (pending h @ concat cs) \<and>
           maxChunkSize h1 = maxChunkSize h"
proof -
  let ?l = "min (chunkSize h - chunkIndex h) (len - rv)"
  let ?h1 = "h\<lparr>chunkIndex := chunkIndex h + ?l\<rparr>"
  from assms(1) have i: "chunkIndex h \<le> chunkSize h" "unat (chunkSize h) \<le> length (chunk h)"
    by (simp_all add: reader_at_def)
  note pl = pending_length [OF i]
  have ll: "unat ?l \<le> length (pending h)"
    unfolding pl by (simp add: word_le_nat_alt [symmetric])
  have u: "unat (chunkIndex h + ?l) = unat (chunkIndex h) + unat ?l"
    by (rule unat_add_le [OF _ i(1)]) simp
  have ule: "unat (chunkIndex h) + unat ?l \<le> unat (chunkSize h)"
    using add_min_le [OF i(1), of "len - rv"] u by (simp add: word_le_nat_alt)
  have src: "take (unat ?l) (drop (unat (chunkIndex h)) (chunk h)) =
             take (unat ?l) (pending h @ concat cs)"
    using ll ule by (simp add: pending_def min_def)
  have b: "Read_body cd h f data len rv =
      Next (?h1, f, memcpy data (unat rv) (take (unat ?l) (pending h @ concat cs)), rv + ?l)"
    using assms(3) by (simp add: Read_body_def Let_def src)
  have p1: "pending ?h1 = drop (unat ?l) (pending h)"
    using ule by (simp add: pending_def u drop_take add.commute)
  have r1: "reader_at cd ?h1 f cs"
    using assms(1) add_min_le [OF i(1), of "len - rv"] by (simp add: reader_at_def)
  from b ll p1 r1 show ?thesis by (intro exI [of _ ?h1] exI [of _ ?l]) simp
qed

lemma Read_body_stream_refill:
  assumes "reader_at cd h f (c # cs)" "rv < len" "chunkIndex h = chunkSize h"
  shows "\<exists>h1 f1 l. Read_body cd h f data len rv =
           Next (h1, f1, memcpy data (unat rv) (take (unat l) (c @ concat cs)), rv + l) \<and>
           l \<le> len - rv \<and> unat l \<le> length (c @ concat cs) \<and>
           reader_at cd h1 f1 cs \<and>
           pending h1 @ concat cs = drop (unat l) (c @ concat cs) \<and>
           maxChunkSize h1 = maxChunkSize h"
proof -
  let ?m = "maxChunkSize h"
  let ?z = "zipped_of cd ?m c"
  let ?r = "concat (map (\<lambda>c. frame (zipped_of cd ?m c)) cs)"
  from assms(1) have w: "\<not> writable f" and r: "rest_of f = frame ?z @ ?r"
    and g: "good_blocks cd ?m (c # cs)"
    by (simp_all add: reader_at_def)
  from g have z: "?z \<noteq> []" "length ?z < 2 ^ 32" "length c \<le> unat ?m"
    "uncompress cd (unat ?m) ?z = (Z_OK, c)" and g': "good_blocks cd ?m cs"
    by (simp_all add: good_blocks_def)
  from fread_frame [OF w r z(2)] z(1) obtain fa fb where
    a: "fread f 4 = (fa, Some (le32 (of_nat (length ?z))))"
    and b: "fread fa (length ?z) = (fb, Some ?z)" "\<not> writable fb" "rest_of fb = ?r"
    by blast
  note u = unat_of_nat_length [OF z(2)]
  have nz: "(of_nat (length ?z) :: u32) \<noteq> 0"
    using u z(1) by (metis length_0_conv unat_0)
  have uc: "unat (of_nat (length c) :: u32) = length c"
    using z(3) by (rule le_unat_uoi)
  let ?l = "min (of_nat (length c)) (len - rv) :: u32"
  let ?chunk = "c @ drop (length c) (chunk h)"
  let ?h1 = "h\<lparr>chunkSize := of_nat (length c), chunkIndex := ?l, chunk := ?chunk\<rparr>"
  have ll: "unat ?l \<le> length c"
    using uc by (metis min.cobounded1 word_le_nat_alt)
  have src: "take (unat ?l) ?chunk = take (unat ?l) (c @ concat cs)"
    using ll by simp
  have body: "Read_body cd h f data len rv =
      Next (?h1, fb, memcpy data (unat rv) (take (unat ?l) (c @ concat cs)), rv + ?l)"
    using assms(3) a b(1) nz z(4) ll
    by (simp add: Read_body_def Let_def le32_dec_le32 u)
  have p1: "pending ?h1 = drop (unat ?l) c"
    using ll by (simp add: pending_def uc)
  have r1: "reader_at cd ?h1 fb cs"
    using b g' uc by (simp add: reader_at_def)
  have "?l \<le> len - rv" by simp
  with body ll p1 r1 show ?thesis
    by (intro exI [of _ ?h1] exI [of _ fb] exI [of _ ?l]) simp
qed

lemma Read_body_stream:
  assumes "reader_at cd h f cs" "rv < len" "unat (len - rv) \<le> length (pending h @ concat cs)"
  shows "\<exists>h1 f1 cs1 l. Read_body cd h f data len rv =
           Next (h1, f1, memcpy data (unat rv) (take (unat l) (pending h @ concat cs)), rv + l) \<and>
           l \<le> len - rv \<and> unat l \<le> length (pending h @ concat cs) \<and>
           reader_at cd h1 f1 cs1 \<and>
           pending h1 @ concat cs1 = drop (unat l) (pending h @ concat cs) \<and>
           maxChunkSize h1 = maxChunkSize h"
proof (cases "chunkIndex h = chunkSize h")
  case False
  from Read_body_stream_copy [OF assms(1,2) False, of data] show ?thesis by blast
next
  case True
  then have p: "pending h = []" by (simp add: pending_def)
  from assms(2) have "0 < unat (len - rv)" using sub_nz [OF assms(2)] by (simp add: unat_gt_0)
  with assms(3) p have "cs \<noteq> []" by (cases cs) simp_all
  then obtain c cs' where cs: "cs = c # cs'" by (cases cs) auto
  from Read_body_stream_refill [OF assms(1) [unfolded cs] assms(2) True, of data]
  show ?thesis unfolding p cs by auto
qed

lemma splice_step:
  assumes "p + n \<le> length data" "k \<le> n" "n \<le> length S"
  shows "take (p + k) (memcpy data p (take k S)) @ take (n - k) (drop k S) @
           drop (p + n) (memcpy data p (take k S)) =
         take p data @ take n S @ drop (p + n) data"
proof -
  have lk: "length (take k S) = k" using assms(2,3) by simp
  have 1: "take (p + k) (memcpy data p (take k S)) = take p data @ take k S"
    using assms lk by (simp add: memcpy_def)
  have 2: "drop (p + n) (memcpy data p (take k S)) = drop (p + n) data"
    using assms lk by (intro drop_memcpy) simp_all
  have 3: "take k S @ take (n - k) (drop k S) = take n S"
    using assms(2) by (metis le_add_diff_inverse take_add)
  show ?thesis unfolding 1 2 using 3 by simp
qed

lemma drop_drop_sub: "(k::nat) \<le> n \<Longrightarrow> drop (n - k) (drop k xs) = drop n xs"
  by simp

lemma Read_loop_stream:
  "reader_at cd h f cs \<Longrightarrow> rv \<le> len \<Longrightarrow> unat len \<le> length data \<Longrightarrow>
   unat (len - rv) \<le> length (pending h @ concat cs) \<Longrightarrow>
   \<exists>h' f' cs'. Read_loop cd h f data len rv =
       (h', f', take (unat rv) data @ take (unat (len - rv)) (pending h @ concat cs) @
                drop (unat len) data, len) \<and>
     reader_at cd h' f' cs' \<and>
     pending h' @ concat cs' = drop (unat (len - rv)) (pending h @ concat cs) \<and>
     maxChunkSize h' = maxChunkSize h"
proof (induction cd h f data len rv arbitrary: cs rule: Read_loop.induct)
  case (1 cd h f data len rv)
  let ?S = "pending h @ concat cs"
  show ?case
  proof (cases "rv < len")
    case False
    with "1.prems"(2) have e: "rv = len" by simp
    from "1.prems"(1) show ?thesis
      unfolding e by (intro exI [of _ h] exI [of _ f] exI [of _ cs]) (simp add: Read_loop.simps)
  next
    case True
    from Read_body_stream [OF "1.prems"(1) True "1.prems"(4), of data]
    obtain h1 f1 cs1 l where
      b: "Read_body cd h f data len rv =
           Next (h1, f1, memcpy data (unat rv) (take (unat l) ?S), rv + l)"
      and l: "l \<le> len - rv" "unat l \<le> length ?S"
      and r1: "reader_at cd h1 f1 cs1"
      and s1: "pending h1 @ concat cs1 = drop (unat l) ?S"
      and m1: "maxChunkSize h1 = maxChunkSize h"
      by blast
    let ?d1 = "memcpy data (unat rv) (take (unat l) ?S)"
    have u: "unat (rv + l) = unat rv + unat l" by (rule unat_add_le [OF l(1) "1.prems"(2)])
    have n: "unat (len - rv) = unat len - unat rv" by (rule unat_sub [OF "1.prems"(2)])
    have pl: "unat rv \<le> unat len" using "1.prems"(2) by (simp add: word_le_nat_alt)
    have kn: "unat l \<le> unat (len - rv)" using l(1) by (simp add: word_le_nat_alt)
    have le1: "rv + l \<le> len" using u kn n pl by (simp add: word_le_nat_alt)
    have n1: "unat (len - (rv + l)) = unat (len - rv) - unat l" by (rule unat_sub_add [OF l(1)])
    have ld: "length ?d1 = length data"
      using l(2) kn n pl "1.prems"(3) by (intro length_memcpy) simp
    have a3: "unat len \<le> length ?d1" using ld "1.prems"(3) by simp
    have a4: "unat (len - (rv + l)) \<le> length (pending h1 @ concat cs1)"
      unfolding s1 n1 using "1.prems"(4) by simp
    from "1.IH" [OF True b refl refl refl r1 le1 a3 a4]
    obtain h' f' cs' where
      ih: "Read_loop cd h1 f1 ?d1 len (rv + l) =
         (h', f', take (unat (rv + l)) ?d1 @
                  take (unat (len - (rv + l))) (pending h1 @ concat cs1) @
                  drop (unat len) ?d1, len)"
      "reader_at cd h' f' cs'"
      "pending h' @ concat cs' = drop (unat (len - (rv + l))) (pending h1 @ concat cs1)"
      "maxChunkSize h' = maxChunkSize h1"
      by blast
    have pn: "unat rv + unat (len - rv) = unat len" using n pl by simp
    have sp: "take (unat (rv + l)) ?d1 @
                  take (unat (len - (rv + l))) (pending h1 @ concat cs1) @
                  drop (unat len) ?d1 =
              take (unat rv) data @ take (unat (len - rv)) ?S @ drop (unat len) data"
      unfolding s1 n1 u
      using splice_step [of "unat rv" "unat (len - rv)" data "unat l" ?S]
        kn "1.prems"(3,4) pn by simp
    have dr: "drop (unat (len - (rv + l))) (pending h1 @ concat cs1) =
              drop (unat (len - rv)) ?S"
      unfolding s1 n1 using drop_drop_sub [OF kn] .
    have "Read_loop cd h f data len rv = Read_loop cd h1 f1 ?d1 len (rv + l)"
      using True b by (simp add: Read_loop.simps [of cd h f data len rv])
    with ih sp dr m1 show ?thesis by (intro exI [of _ h'] exI [of _ f'] exI [of _ cs']) simp
  qed
qed

lemma take_take_append: "n \<le> length xs \<Longrightarrow> take n (take n xs @ ys) = take n xs"
  by simp

lemma reader_at_file_rz: "reader_at cd (h\<lparr>file_rz := x\<rparr>) f cs = reader_at cd h f cs"
  by (simp add: reader_at_def)

lemma pending_file_rz: "pending (h\<lparr>file_rz := x\<rparr>) = pending h"
  by (simp add: pending_def)

lemma Read_stream:
  assumes "file_rz h = Some f" "reader_at cd h f cs" "unat len \<le> length data"
    and "unat len \<le> length (pending h @ concat cs)"
  shows "\<exists>h' f' cs'. Read cd h data len =
           Inr (h', take (unat len) (pending h @ concat cs) @ drop (unat len) data, len) \<and>
           file_rz h' = Some f' \<and> reader_at cd h' f' cs' \<and>
           pending h' @ concat cs' = drop (unat len) (pending h @ concat cs) \<and>
           maxChunkSize h' = maxChunkSize h"
proof -
  from Read_loop_stream [OF assms(2) _ assms(3), of 0] assms(4)
  obtain h' f' cs' where
    l: "Read_loop cd h f data len 0 =
       (h', f', take (unat len) (pending h @ concat cs) @ drop (unat len) data, len)"
    "reader_at cd h' f' cs'"
    "pending h' @ concat cs' = drop (unat len) (pending h @ concat cs)"
    "maxChunkSize h' = maxChunkSize h"
    by auto
  have "Read cd h data len =
      Inr (h'\<lparr>file_rz := Some f'\<rparr>,
           take (unat len) (pending h @ concat cs) @ drop (unat len) data, len)"
    using assms(1) l(1) by (simp add: Read_def)
  with l(2,3,4) show ?thesis
    by (intro exI [of _ "h'\<lparr>file_rz := Some f'\<rparr>"] exI [of _ f'] exI [of _ cs'])
       (simp add: reader_at_file_rz pending_file_rz)
qed

lemma Reads_stream:
  "file_rz h = Some f \<Longrightarrow> reader_at cd h f cs \<Longrightarrow>
   \<forall>r\<in>set rs. unat (snd r) \<le> length (fst r) \<Longrightarrow>
   sum_list (map (\<lambda>r. unat (snd r)) rs) \<le> length (pending h @ concat cs) \<Longrightarrow>
   \<exists>h' outs. Reads cd h rs = Inr (h', outs) \<and>
     concat outs = take (sum_list (map (\<lambda>r. unat (snd r)) rs)) (pending h @ concat cs) \<and>
     map length outs = map (\<lambda>r. unat (snd r)) rs"
proof (induction rs arbitrary: h f cs)
  case Nil
  then show ?case by simp
next
  case (Cons r rs)
  obtain data len where r: "r = (data, len)" by (cases r) auto
  let ?S = "pending h @ concat cs"
  let ?n = "sum_list (map (\<lambda>r. unat (snd r)) rs)"
  from Cons.prems(3,4) r have a: "unat len \<le> length data" "unat len \<le> length ?S"
    "unat len + ?n \<le> length ?S" by simp_all
  from Read_stream [OF Cons.prems(1,2) a(1,2)] obtain h1 f1 cs1 where
    1: "Read cd h data len = Inr (h1, take (unat len) ?S @ drop (unat len) data, len)"
    "file_rz h1 = Some f1" "reader_at cd h1 f1 cs1"
    "pending h1 @ concat cs1 = drop (unat len) ?S" by blast
  from Cons.prems(3) have all: "\<forall>r\<in>set rs. unat (snd r) \<le> length (fst r)" by simp
  have le: "?n \<le> length (pending h1 @ concat cs1)" unfolding 1(4) using a(3) by simp
  from Cons.IH [OF 1(2,3) all le] obtain h' outs where
    2: "Reads cd h1 rs = Inr (h', outs)"
    "concat outs = take ?n (pending h1 @ concat cs1)"
    "map length outs = map (\<lambda>r. unat (snd r)) rs" by blast
  define out where "out = take (unat len) (take (unat len) ?S @ drop (unat len) data)"
  have o: "out = take (unat len) ?S" unfolding out_def using take_take_append [OF a(2)] .
  have lo: "length out = unat len" unfolding o using a(2) by simp
  have 3: "Reads cd h (r # rs) = Inr (h', out # outs)"
    using r 1(1) 2(1) by (simp add: out_def)
  have "concat (out # outs) = take (unat len) ?S @ take ?n (drop (unat len) ?S)"
    unfolding concat.simps o 2(2) 1(4) ..
  also have "\<dots> = take (unat len + ?n) ?S" by (simp only: take_add)
  finally have 4: "concat (out # outs) =
      take (sum_list (map (\<lambda>r. unat (snd r)) (r # rs))) ?S"
    using r by simp
  have 5: "map length (out # outs) = map (\<lambda>r. unat (snd r)) (r # rs)"
    using lo 2(3) r by simp
  from 3 4 5 show ?case by blast
qed

lemma split_bytes8:
  fixes n :: nat
  assumes "n < 2 ^ 64"
  shows "n mod 256 + 256 * ((n div 2 ^ 8) mod 256 + 256 * ((n div 2 ^ 16) mod 256
      + 256 * ((n div 2 ^ 24) mod 256 + 256 * ((n div 2 ^ 32) mod 256
      + 256 * ((n div 2 ^ 40) mod 256 + 256 * ((n div 2 ^ 48) mod 256
      + 256 * ((n div 2 ^ 56) mod 256 + 256 * 0))))))) = n"
proof -
  define a where "a = n div 256"
  define b where "b = a div 256"
  define c where "c = b div 256"
  define d where "d = c div 256"
  define e where "e = d div 256"
  define f where "f = e div 256"
  define g where "g = f div 256"
  have d8: "n div 2 ^ 8 = a" by (simp add: a_def)
  have d16: "n div 2 ^ 16 = b"
    unfolding b_def a_def div_mult2_eq [symmetric] by simp
  have d24: "n div 2 ^ 24 = c"
    unfolding c_def b_def a_def div_mult2_eq [symmetric] by simp
  have d32: "n div 2 ^ 32 = d"
    unfolding d_def c_def b_def a_def div_mult2_eq [symmetric] by simp
  have d40: "n div 2 ^ 40 = e"
    unfolding e_def d_def c_def b_def a_def div_mult2_eq [symmetric] by simp
  have d48: "n div 2 ^ 48 = f"
    unfolding f_def e_def d_def c_def b_def a_def div_mult2_eq [symmetric] by simp
  have d56: "n div 2 ^ 56 = g"
    unfolding g_def f_def e_def d_def c_def b_def a_def div_mult2_eq [symmetric] by simp
  have g: "g < 256" using assms unfolding d56 [symmetric] by (simp add: less_mult_imp_div_less)
  have 1: "n = n mod 256 + 256 * a" unfolding a_def by simp
  have 2: "a = a mod 256 + 256 * b" unfolding b_def by simp
  have 3: "b = b mod 256 + 256 * c" unfolding c_def by simp
  have 4: "c = c mod 256 + 256 * d" unfolding d_def by simp
  have 5: "d = d mod 256 + 256 * e" unfolding e_def by simp
  have 6: "e = e mod 256 + 256 * f" unfolding f_def by simp
  have 7: "f = f mod 256 + 256 * g" unfolding g_def by simp
  have 8: "g mod 256 = g" using g by simp
  have "n mod 256 + 256 * (a mod 256 + 256 * (b mod 256 + 256 * (c mod 256
      + 256 * (d mod 256 + 256 * (e mod 256 + 256 * (f mod 256
      + 256 * (g mod 256 + 256 * 0))))))) = n"
    unfolding 8 using 1 2 3 4 5 6 7 by simp
  then show ?thesis unfolding d8 d16 d24 d32 d40 d48 d56 .
qed

lemma from_le_le64: "from_le (le64 w) = unat w"
proof -
  have b: "unat w < 2 ^ 64" using unsigned_less [of w, where 'a = nat] by simp
  have 1: "unat (ucast w :: u8) = unat w mod 256"
    by (simp add: unsigned_ucast_eq take_bit_eq_mod)
  have 2: "unat (ucast (drop_bit 8 w) :: u8) = (unat w div 2 ^ 8) mod 256"
    "unat (ucast (drop_bit 16 w) :: u8) = (unat w div 2 ^ 16) mod 256"
    "unat (ucast (drop_bit 24 w) :: u8) = (unat w div 2 ^ 24) mod 256"
    "unat (ucast (drop_bit 32 w) :: u8) = (unat w div 2 ^ 32) mod 256"
    "unat (ucast (drop_bit 40 w) :: u8) = (unat w div 2 ^ 40) mod 256"
    "unat (ucast (drop_bit 48 w) :: u8) = (unat w div 2 ^ 48) mod 256"
    "unat (ucast (drop_bit 56 w) :: u8) = (unat w div 2 ^ 56) mod 256"
    by (simp_all add: unsigned_ucast_eq take_bit_eq_mod drop_bit_eq_div unat_div)
  show ?thesis
    unfolding le64_def from_le.simps 1 2 by (rule split_bytes8 [OF b])
qed

lemma le64_dec_le64: "le64_dec (le64 w) = w"
  by (simp add: le64_dec_def from_le_le64)

lemma Open_read_ok:
  assumes "file_rz g = None" "files d path = Some (RZipHeader @ le32 m @ le64 s @ rest)"
    and "unat s < 2 ^ 32"
  shows "Open d g path False =
           Inr (d, True,
                g\<lparr>file_rz := Some \<lparr>fbytes = RZipHeader @ le32 m @ le64 s @ rest, fpos = 20,
                                   writable = False, quota = capacity d, fname = path,
                                   wbuf = [], bufsize = bufsiz d\<rparr>,
                  size_rz := s, maxChunkSize := m, chunk := replicate (unat m) 0,
                  chunkIndex := 0, chunkSize := 0, writing := False\<rparr>)"
proof -
  let ?f0 = "\<lparr>fbytes = RZipHeader @ le32 m @ le64 s @ rest, fpos = 0, writable = False,
               quota = capacity d, fname = path, wbuf = [], bufsize = bufsiz d\<rparr>"
  have r1: "fread ?f0 8 = (?f0\<lparr>fpos := 8\<rparr>, Some RZipHeader)"
    by (simp add: fread_def)
  have r2: "fread (?f0\<lparr>fpos := 8\<rparr>) 4 = (?f0\<lparr>fpos := 12\<rparr>, Some (le32 m))"
    by (simp add: fread_def)
  have r3: "fread (?f0\<lparr>fpos := 12\<rparr>) 8 = (?f0\<lparr>fpos := 20\<rparr>, Some (le64 s))"
    by (simp add: fread_def)
  have nl: "\<not> drop_bit 32 s \<noteq> 0" unfolding hi_bits using assms(3) by simp
  show ?thesis
    using assms(1,2) r1 r2 r3 nl
    by (simp add: Open_def fopen_def Open_read_def Let_def le64_dec_le64 le32_dec_le32)
qed

lemma sum_lengths:
  "\<forall>w\<in>set ws. unat (snd w) = length (fst w) \<Longrightarrow>
   sum_list (map unat (map snd ws)) = length (concat (map fst ws))"
  by (induction ws) simp_all

lemma concat_chunks:
  "m \<noteq> 0 \<Longrightarrow> concat (concat (map (\<lambda>w. chunks_of m (fst w)) ws)) = concat (map fst ws)"
  by (induction ws) (simp_all add: concat_chunks_of)

lemma good_blocks_written:
  assumes "codec_inverse cd m" "compress_bounded cd"
    and "[] \<notin> set (map (zipped_of cd m) cs)" "\<forall>c\<in>set cs. length c \<le> unat m"
  shows "good_blocks cd m cs"
proof -
  have "length (zipped_of cd m c) < 2 ^ 32" for c
  proof -
    have "length (zipped_of cd m c) \<le> unat (m + m div 1000 + 12)"
      using assms(2) by (simp add: compress_bounded_def zipped_of_def)
    also have "\<dots> < 2 ^ 32" using unsigned_less [of "m + m div 1000 + 12", where 'a = nat] by simp
    finally show ?thesis .
  qed
  moreover have "zipped_of cd m c \<noteq> []" if "c \<in> set cs" for c
    using assms(3) that by (metis imageI set_map)
  ultimately show ?thesis
    using assms(1,4) unfolding good_blocks_def codec_inverse_def by blast
qed

lemma Close_written:
  assumes "file_rz h = Some f" "writable f" "wbuf f = []"
  shows "Close d h = (d\<lparr>files := (files d)(fname f \<mapsto> fbytes f)\<rparr>, h\<lparr>file_rz := None, chunk := []\<rparr>)"
  using assms by (simp add: Close_def fclose_def fflush_def)

lemma unat_size_sum:
  assumes "n < 2 ^ 32"
  shows "unat (of_nat n :: u64) = n"
proof -
  have "n < 2 ^ 64" using assms by (rule less_trans) simp
  then show ?thesis by (simp add: unat_of_nat)
qed

lemma chunks_all_bounded:
  "\<forall>c\<in>set (concat (map (\<lambda>w. chunks_of m (fst w)) ws)). length c \<le> m"
  using chunks_of_lengths by fastforce

text \<open>Writes that succeed: a stream with room takes what it is given.\<close>

lemma put_fits:
  "length bs \<le> quota f - p \<Longrightarrow>
   put f p bs = (f\<lparr>fbytes := (if bs = [] then fbytes f else store (fbytes f) p bs),
                   fpos := p + length bs\<rparr>, True)"
  by (simp add: put_def Let_def)

lemma fflush_fits:
  assumes "length (wbuf f) \<le> fpos f" "fpos f \<le> quota f"
  shows "\<exists>f'. fflush f = (f', True)"
proof (cases "wbuf f = []")
  case True
  then show ?thesis by (simp add: fflush_def)
next
  case False
  from assms have "length (wbuf f) \<le> quota (f\<lparr>wbuf := []\<rparr>) - (fpos f - length (wbuf f))"
    by simp
  from put_fits [OF this] False show ?thesis by (simp add: fflush_def)
qed

lemma fwrite_fits:
  assumes "writable f" "bs \<noteq> []" "length (wbuf f) \<le> fpos f" "fpos f + length bs \<le> quota f"
  shows "\<exists>f'. fwrite f bs = (f', True)"
proof (cases "length (wbuf f) + length bs \<le> bufsize f")
  case True
  with assms(1,2) show ?thesis by (simp add: fwrite_def)
next
  case False
  from assms(4) have "fpos f \<le> quota f" by simp
  from fflush_fits [OF assms(3) this] obtain f1 where fl: "fflush f = (f1, True)" by blast
  from fflush_ok [OF fl] assms(3) have f1: "fpos f1 = fpos f" "quota f1 = quota f" by simp_all
  from assms(4) have "length bs \<le> quota f1 - fpos f1" unfolding f1 by simp
  from put_fits [OF this] False assms(1,2) fl show ?thesis by (simp add: fwrite_def)
qed

lemma fseek_set_fits:
  assumes "length (wbuf f) \<le> fpos f" "fpos f \<le> quota f"
  shows "\<exists>f'. fseek_set f p = (f', True)"
proof -
  from fflush_fits [OF assms] obtain f1 where "fflush f = (f1, True)" by blast
  then show ?thesis by (simp add: fseek_set_def)
qed

text \<open>A Write call of one block on a stream with room accepts the block.\<close>

lemma Write_one_chunk:
  assumes "file_rz h = Some f" "length (wbuf f) \<le> fpos f" "writable f"
    and "0 < len" "len \<le> maxChunkSize h" "unat len = length data"
    and "compress cd (unat (maxChunkSize h + maxChunkSize h div 1000 + 12)) data = (Z_OK, z)"
    and "z \<noteq> []" "fpos f + 4 + length z \<le> quota f" "20 \<le> quota f"
  shows "\<exists>h' f'. Write cd h data len = Inr (h', len) \<and> file_rz h' = Some f' \<and>
           length (wbuf f') \<le> fpos f' \<and> writable f' \<and> quota f' = quota f \<and>
           fpos f' = fpos f + 4 + length z \<and> maxChunkSize h' = maxChunkSize h"
proof -
  let ?a = "le32 (of_nat (length z))"
  have a: "?a \<noteq> []" by (rule RZipHeader_nonempty)
  from assms(9) have "fpos f + length ?a \<le> quota f" by simp
  from fwrite_fits [OF assms(3) a assms(2) this] obtain fa where
    wa: "fwrite f ?a = (fa, True)" by blast
  from fwrite_True [OF wa assms(2)]
  have fa: "fpos fa = fpos f + 4" "length (wbuf fa) \<le> fpos fa" "writable fa"
    "quota fa = quota f" by simp_all
  from assms(9) have "fpos fa + length z \<le> quota fa" unfolding fa by simp
  from fwrite_fits [OF fa(3) assms(8) fa(2) this] obtain fb where
    wb: "fwrite fa z = (fb, True)" by blast
  from fwrite_True [OF wb fa(2)] fa
  have fb: "fpos fb = fpos f + 4 + length z" "length (wbuf fb) \<le> fpos fb" "writable fb"
    "quota fb = quota f" by simp_all
  let ?h1 = "h\<lparr>size_rz := size_rz h + ucast len\<rparr>"
  have mn: "min (maxChunkSize h) len = len" using assms(5) by (simp add: min_def)
  have body: "Write_body cd h f data len 0 = Next (?h1, fb, len)"
    using assms(6,7) wa wb by (simp add: Write_body_def Let_def mn)
  have loop: "Write_loop cd h f data len 0 = (?h1, fb, len)"
    using assms(4) body
    by (simp add: Write_loop.simps [of cd h f data len 0] Write_loop.simps [of cd ?h1 fb data len len])
  from assms(9) fb have "fpos fb \<le> quota fb" by simp
  from fseek_set_fits [OF fb(2) this] obtain f2 where s1: "fseek_set fb 12 = (f2, True)" by blast
  from fseek_set_True [OF s1] fb
  have f2: "wbuf f2 = []" "fpos f2 = 12" "writable f2" "quota f2 = quota f" by simp_all
  then have wf2: "length (wbuf f2) \<le> fpos f2" by simp
  let ?w = "le64 (size_rz ?h1)"
  have w: "?w \<noteq> []" by (rule RZipHeader_nonempty)
  from assms(10) f2 have "fpos f2 + length ?w \<le> quota f2" by simp
  from fwrite_fits [OF f2(3) w wf2 this] obtain f3 where w3: "fwrite f2 ?w = (f3, True)" by blast
  from fwrite_True [OF w3 wf2] f2
  have f3: "fpos f3 = 20" "length (wbuf f3) \<le> fpos f3" "writable f3" "quota f3 = quota f"
    by simp_all
  from assms(10) f3 have "fpos f3 \<le> quota f3" by simp
  from fseek_set_fits [OF f3(2) this] obtain f4 where
    s2: "fseek_set f3 (fpos fb) = (f4, True)" by blast
  from fseek_set_True [OF s2] f3 fb
  have f4: "wbuf f4 = []" "fpos f4 = fpos f + 4 + length z" "writable f4" "quota f4 = quota f"
    by simp_all
  have "Write cd h data len = Inr (?h1\<lparr>file_rz := Some f4\<rparr>, len)"
    using assms(1) loop s1 w3 s2 by (simp add: Write_def Let_def)
  with f4 show ?thesis by simp
qed

lemma Writes_replicate:
  "file_rz h = Some f \<Longrightarrow> length (wbuf f) \<le> fpos f \<Longrightarrow> writable f \<Longrightarrow>
   0 < len \<Longrightarrow> len \<le> maxChunkSize h \<Longrightarrow> unat len = length data \<Longrightarrow>
   compress cd (unat (maxChunkSize h + maxChunkSize h div 1000 + 12)) data = (Z_OK, z) \<Longrightarrow>
   z \<noteq> [] \<Longrightarrow> fpos f + n * (4 + length z) \<le> quota f \<Longrightarrow> 20 \<le> quota f \<Longrightarrow>
   \<exists>h'. Writes cd h (replicate n (data, len)) = Inr (h', replicate n len)"
proof (induction n arbitrary: h f)
  case 0
  then show ?case by simp
next
  case (Suc n)
  from Suc.prems(9) have r: "fpos f + 4 + length z \<le> quota f" by simp
  from Write_one_chunk [OF Suc.prems(1-8) r Suc.prems(10)] obtain h1 f1 where
    1: "Write cd h data len = Inr (h1, len)" "file_rz h1 = Some f1"
    "length (wbuf f1) \<le> fpos f1" "writable f1" "quota f1 = quota f"
    "fpos f1 = fpos f + 4 + length z" "maxChunkSize h1 = maxChunkSize h" by blast
  from Suc.prems(9) 1(5,6) have r1: "fpos f1 + n * (4 + length z) \<le> quota f1" by simp
  from Suc.IH [OF 1(2,3,4) Suc.prems(4) _ Suc.prems(6) _ Suc.prems(8) r1] Suc.prems(5,7,10) 1(5,7)
  obtain h' where "Writes cd h1 (replicate n (data, len)) = Inr (h', replicate n len)" by auto
  with 1(1) show ?case by simp
qed

lemma Open_read_legacy:
  assumes "file_rz g = None" "files d path = Some (RZipHeader @ le32 m @ le64 s @ rest)"
    and "2 ^ 32 \<le> unat s"
  shows "Open d g path False =
           Inr (d, True,
                g\<lparr>file_rz := Some \<lparr>fbytes = RZipHeader @ le32 m @ le64 s @ rest, fpos = 16,
                                   writable = False, quota = capacity d, fname = path,
                                   wbuf = [], bufsize = bufsiz d\<rparr>,
                  size_rz := s AND 0xffffffff, maxChunkSize := m,
                  chunk := replicate (unat m) 0,
                  chunkIndex := 0, chunkSize := 0, writing := False\<rparr>)"
proof -
  let ?f0 = "\<lparr>fbytes = RZipHeader @ le32 m @ le64 s @ rest, fpos = 0, writable = False,
               quota = capacity d, fname = path, wbuf = [], bufsize = bufsiz d\<rparr>"
  have r1: "fread ?f0 8 = (?f0\<lparr>fpos := 8\<rparr>, Some RZipHeader)"
    by (simp add: fread_def)
  have r2: "fread (?f0\<lparr>fpos := 8\<rparr>) 4 = (?f0\<lparr>fpos := 12\<rparr>, Some (le32 m))"
    by (simp add: fread_def)
  have r3: "fread (?f0\<lparr>fpos := 12\<rparr>) 8 = (?f0\<lparr>fpos := 20\<rparr>, Some (le64 s))"
    by (simp add: fread_def)
  have nl: "drop_bit 32 s \<noteq> 0" unfolding hi_bits using assms(3) by simp
  show ?thesis
    using assms(1,2) r1 r2 r3 nl
    by (simp add: Open_def fopen_def Open_read_def Let_def le64_dec_le64 le32_dec_le32
        fseek_cur_def fflush_def)
qed

text \<open>
  A reader left at offset 16 of an archive whose size field is \<open>2 ^ 32\<close> takes the upper
  half of the field for the length of the first frame.
\<close>

lemma Read_after_rewind:
  assumes "file_rz g = Some f" "\<not> writable f" "fpos f = 16"
    and "fbytes f = RZipHeader @ le32 m @ le64 4294967296 @ le32 6 @ T"
    and "chunkIndex g = 0" "chunkSize g = 0" "0 < len"
  shows "\<exists>g'. Read run_codec g data len = Inr (g', data, 0)"
proof -
  have r1: "fread f 4 = (f\<lparr>fpos := 20\<rparr>, Some [1, 0, 0, 0])"
    using assms(2,3,4) by (simp add: fread_def RZipHeader_def le32_def le64_def)
  have r2: "fread (f\<lparr>fpos := 20\<rparr>) 1 = (f\<lparr>fpos := 21\<rparr>, Some [6])"
    using assms(2,3,4) by (simp add: fread_def RZipHeader_def le32_def le64_def)
  have d: "le32_dec [1, 0, 0, 0] = 1" by (simp add: le32_dec_def)
  have u: "uncompress run_codec (unat (maxChunkSize g)) [6] = (- 3, [])"
    by (simp add: run_codec_def run_uncompress_def stored_uncompress_def)
  have body: "\<exists>g1. Read_body run_codec g f data len 0 = Break (g1, f\<lparr>fpos := 21\<rparr>, data, 0)"
    using assms(5,6) r1 r2 d u by (simp add: Read_body_def Let_def Z_OK_def)
  then obtain g1 where
    "Read_body run_codec g f data len 0 = Break (g1, f\<lparr>fpos := 21\<rparr>, data, 0)" by blast
  with assms(7) have "Read_loop run_codec g f data len 0 = (g1, f\<lparr>fpos := 21\<rparr>, data, 0)"
    by (simp add: Read_loop.simps [of run_codec g f data len 0])
  with assms(1) show ?thesis by (simp add: Read_def)
qed

lemma zero_block_length: "length zero_block = 1048576"
  by (simp add: zero_block_def)

lemma zero_block_chunks: "chunks_of 1048576 zero_block = [zero_block]"
proof -
  have ne: "zero_block \<noteq> []" using zero_block_length by auto
  have "chunks_of 1048576 zero_block =
        take 1048576 zero_block # chunks_of 1048576 (drop 1048576 zero_block)"
    by (rule chunks_of_step [OF _ ne]) simp
  then show ?thesis using zero_block_length by (simp add: chunks_of_Nil)
qed

lemma zero_block_zipped:
  "compress run_codec (unat ((1048576::u32) + 1048576 div 1000 + 12)) zero_block =
     (Z_OK, 0x52 # le32 1048576 @ [0])"
proof -
  have h: "hd zero_block = 0" by (simp add: zero_block_def)
  have r: "zero_block = replicate (length zero_block) (hd zero_block)"
    unfolding h by (simp add: zero_block_def)
  have ne: "zero_block \<noteq> []" using zero_block_length by auto
  have "run_compress 1049636 zero_block =
          (Z_OK, 0x52 # le32 (of_nat (length zero_block)) @ [hd zero_block])"
    unfolding run_compress_def using r ne zero_block_length by simp
  then show ?thesis by (simp add: run_codec_def zero_block_length h)
qed

lemma stored_compress_bounded: "compress_bounded stored_codec"
  by (simp add: compress_bounded_def stored_codec_def stored_compress_def)

text \<open>
  C1, for streams shorter than \<open>2 ^ 32\<close> bytes.  After Open for writing, one or more Write
  calls that each accept all of their data, and Close, Open for reading succeeds, and Read
  calls whose lengths add up to the number of bytes written, each into a destination at
  least as long as the length it asks for, produce exactly the bytes written, in order and
  in the portions asked for.  The codec is taken to do what zlib promises: \<^verbatim>\<open>uncompress\<close>
  gives back a block of at most the maximum chunk size that \<^verbatim>\<open>compress\<close> produced, and
  \<^verbatim>\<open>compress\<close> stores no more than its destination holds.
\<close>

theorem write_read_round_trip:
  assumes "Open d h0 path True = Inr (d1, True, h1)"
    and "Writes cd h1 ws = Inr (h2, map snd ws)"
    and "\<forall>w\<in>set ws. unat (snd w) = length (fst w)"
    and "ws \<noteq> []"
    and "length (concat (map fst ws)) < 2 ^ 32"
    and "codec_inverse cd 1048576" and "compress_bounded cd"
    and "Close d1 h2 = (d2, h3)"
    and "\<forall>r\<in>set rs. unat (snd r) \<le> length (fst r)"
    and "sum_list (map (\<lambda>r. unat (snd r)) rs) = length (concat (map fst ws))"
  shows "\<exists>d3 h4 h5 outs. Open d2 h3 path False = Inr (d3, True, h4) \<and>
           Reads cd h4 rs = Inr (h5, outs) \<and> concat outs = concat (map fst ws) \<and>
           map length outs = map (\<lambda>r. unat (snd r)) rs"
proof -
  let ?m = "1048576 :: u32"
  let ?S = "concat (map fst ws)"
  let ?cs = "concat (map (\<lambda>w. chunks_of (unat ?m) (fst w)) ws)"
  let ?F = "concat (map frame (map (zipped_of cd ?m) ?cs))"
  from Open_write_layout [OF assms(1)] obtain f1 where
    f1: "file_rz h1 = Some f1" "stream_layout f1 ?m []" "maxChunkSize h1 = ?m"
    and p1: "fname f1 = path" and s1: "size_rz h1 = 0" by blast
  have m0: "?m \<noteq> 0" by simp
  from Writes_layout [OF f1 m0 assms(3,2)] assms(4) obtain f2 where
    f2: "file_rz h2 = Some f2" "stream_layout f2 ?m ([] @ map (zipped_of cd ?m) ?cs)"
    "20 \<le> length (fbytes f2)" "take 8 (drop 12 (fbytes f2)) = le64 (size_rz h2)"
    "wbuf f2 = []" and w2: "writable f2" and p2: "fname f2 = fname f1"
    by auto
  from f2(2) have l2: "stream_layout f2 ?m (map (zipped_of cd ?m) ?cs)" by simp
  from layout_bytes [OF l2 f2(3,4,5)]
  have b2: "fbytes f2 = RZipHeader @ le32 ?m @ le64 (size_rz h2) @ ?F" .
  from l2 have ne: "[] \<notin> set (map (zipped_of cd ?m) ?cs)" by (simp add: stream_layout_def)
  from Writes_result [OF assms(2)] s1 sum_lengths [OF assms(3)]
  have sz: "size_rz h2 = of_nat (length ?S)" by simp
  have us: "unat (size_rz h2) < 2 ^ 32" unfolding sz unat_size_sum [OF assms(5)] by (rule assms(5))
  from Close_written [OF f2(1) w2 f2(5), of d1] assms(8) p1 p2
  have d2: "d2 = d1\<lparr>files := (files d1)(path \<mapsto> fbytes f2)\<rparr>"
    and h3: "h3 = h2\<lparr>file_rz := None, chunk := []\<rparr>" by simp_all
  have n3: "file_rz h3 = None" unfolding h3 by simp
  have fl: "files d2 path = Some (RZipHeader @ le32 ?m @ le64 (size_rz h2) @ ?F)"
    unfolding d2 b2 by simp
  let ?f4 = "\<lparr>fbytes = RZipHeader @ le32 ?m @ le64 (size_rz h2) @ ?F, fpos = 20,
               writable = False, quota = capacity d2, fname = path, wbuf = [],
               bufsize = bufsiz d2\<rparr>"
  let ?h4 = "h3\<lparr>file_rz := Some ?f4, size_rz := size_rz h2, maxChunkSize := ?m,
                chunk := replicate (unat ?m) 0, chunkIndex := 0, chunkSize := 0,
                writing := False\<rparr>"
  note o4 = Open_read_ok [OF n3 fl us]
  have gb: "good_blocks cd ?m ?cs"
    by (rule good_blocks_written [OF assms(6,7) ne chunks_all_bounded])
  have rest: "rest_of ?f4 = concat (map (\<lambda>c. frame (zipped_of cd ?m c)) ?cs)"
    by (simp add: rest_of_def comp_def)
  have ra: "reader_at cd ?h4 ?f4 ?cs"
    unfolding reader_at_def using rest gb by simp
  have pe: "pending ?h4 = []" by (simp add: pending_def)
  have cc: "concat ?cs = ?S" by (rule concat_chunks) simp
  have fz: "file_rz ?h4 = Some ?f4" by simp
  have le: "sum_list (map (\<lambda>r. unat (snd r)) rs) \<le> length (pending ?h4 @ concat ?cs)"
    unfolding pe cc using assms(10) by simp
  from Reads_stream [OF fz ra assms(9) le] obtain h5 outs where
    r: "Reads cd ?h4 rs = Inr (h5, outs)"
    "concat outs = take (sum_list (map (\<lambda>r. unat (snd r)) rs)) (pending ?h4 @ concat ?cs)"
    "map length outs = map (\<lambda>r. unat (snd r)) rs" by blast
  from r(2) have "concat outs = ?S" unfolding pe cc assms(10) by simp
  with o4 r(1,3) show ?thesis by blast
qed

theorem write_read_round_trip_witness:
  "codec_inverse stored_codec 1048576 \<and> compress_bounded stored_codec \<and>
   Open small_disk closed_handle ''w.state'' True =
     Inr (small_disk\<lparr>files := (files small_disk)(''w.state'' \<mapsto> [])\<rparr>, True, small_write_handle) \<and>
   (\<exists>h2 d2 h3.
      Writes stored_codec small_write_handle [([1, 2, 3], 3)] = Inr (h2, [3]) \<and>
      Close (small_disk\<lparr>files := (files small_disk)(''w.state'' \<mapsto> [])\<rparr>) h2 = (d2, h3) \<and>
      (\<exists>d3 h4 h5 outs.
         Open d2 h3 ''w.state'' False = Inr (d3, True, h4) \<and>
         Reads stored_codec h4 [([0, 0], 2), ([0], 1)] = Inr (h5, outs) \<and>
         concat outs = [1, 2, 3] \<and> map length outs = [2, 1]))"
proof -
  let ?ws = "[([1, 2, 3], 3)] :: (u8 list \<times> u32) list"
  let ?rs = "[([0, 0], 2), ([0], 1)] :: (u8 list \<times> u32) list"
  let ?d1 = "small_disk\<lparr>files := (files small_disk)(''w.state'' \<mapsto> [])\<rparr>"
  have "case Writes stored_codec small_write_handle ?ws of
          Inr (h', ns) \<Rightarrow> ns = [3]
        | Inl e \<Rightarrow> False"
    by (simp add: write_eval small_write_handle_def)
  then obtain h2 where w: "Writes stored_codec small_write_handle ?ws = Inr (h2, map snd ?ws)"
    by (auto split: sum.splits)
  obtain d2 h3 where c: "Close ?d1 h2 = (d2, h3)" by (cases "Close ?d1 h2") auto
  have a: "\<forall>w\<in>set ?ws. unat (snd w) = length (fst w)" by simp
  have t: "length (concat (map fst ?ws)) < 2 ^ 32" by simp
  have r: "\<forall>r\<in>set ?rs. unat (snd r) \<le> length (fst r)" by simp
  have s: "sum_list (map (\<lambda>r. unat (snd r)) ?rs) = length (concat (map fst ?ws))" by simp
  from write_read_round_trip [OF Open_small_disk w a _ t stored_inverse stored_compress_bounded c r s]
  obtain d3 h4 h5 outs where
    "Open d2 h3 ''w.state'' False = Inr (d3, True, h4)"
    "Reads stored_codec h4 ?rs = Inr (h5, outs)" "concat outs = [1, 2, 3]"
    "map length outs = [2, 1]"
    by auto
  with Open_small_disk w c stored_inverse stored_compress_bounded show ?thesis by auto
qed

text \<open>
  At \<open>2 ^ 32\<close> bytes the round trip fails.  The size field then has a bit set in its upper
  half, so Open for reading takes the archive for one with a 32-bit size field and moves
  back four bytes; the first Read takes the upper half of the size field for the length of
  a frame and returns no bytes.
\<close>

theorem write_read_round_trip_counterexample:
  "big_round_trip = Inr (True, True, 0)"
proof -
  let ?m = "1048576 :: u32"
  let ?w = "(zero_block, ?m)"
  let ?ws = "replicate 4096 ?w"
  let ?f1 = "\<lparr>fbytes = RZipHeader @ le32 1048576, fpos = 20, writable = True,
               quota = capacity big_disk, fname = ''b.state'', wbuf = [],
               bufsize = bufsiz big_disk\<rparr>"
  let ?h1 = "closed_handle\<lparr>writing := True, size_rz := 0, maxChunkSize := 1048576,
               file_rz := Some ?f1\<rparr>"
  let ?d1 = "big_disk\<lparr>files := (files big_disk)(''b.state'' \<mapsto> [])\<rparr>"
  have a: "file_rz closed_handle = None" by (simp add: closed_handle_def)
  have b: "12 \<le> capacity big_disk" "12 \<le> bufsiz big_disk" by (simp_all add: big_disk_def)
  note o1 = Open_write_ok [OF a b, of "''b.state''"]
  have z: "compress run_codec (unat (maxChunkSize ?h1 + maxChunkSize ?h1 div 1000 + 12))
             zero_block = (Z_OK, 0x52 # le32 1048576 @ [0])"
    using zero_block_zipped by simp
  have room: "fpos ?f1 + 4096 * (4 + length (0x52 # le32 1048576 @ [0 :: u8])) \<le> quota ?f1"
    by (simp add: big_disk_def zero_block_length)
  have "\<exists>h'. Writes run_codec ?h1 (replicate 4096 (zero_block, ?m)) =
          Inr (h', replicate 4096 ?m)"
    by (rule Writes_replicate [OF _ _ _ _ _ _ z _ room])
       (simp_all add: zero_block_length big_disk_def)
  then obtain h2 where w: "Writes run_codec ?h1 ?ws = Inr (h2, replicate 4096 ?m)" by blast
  have ms: "map snd ?ws = replicate 4096 ?m" by simp
  have lens: "\<forall>w\<in>set ?ws. unat (snd w) = length (fst w)" by (simp add: zero_block_length)
  let ?cs = "concat (map (\<lambda>w. chunks_of (unat ?m) (fst w)) ?ws)"
  let ?F = "concat (map frame (map (zipped_of run_codec ?m) ?cs))"
  from Open_write_layout [OF o1] obtain f1 where
    f1: "file_rz ?h1 = Some f1" "stream_layout f1 ?m []" "maxChunkSize ?h1 = ?m"
    and p1: "fname f1 = ''b.state''" by blast
  have m0: "?m \<noteq> 0" by simp
  have ne: "?ws \<noteq> []" by simp
  from Writes_layout [OF f1 m0 lens w [folded ms]] ne obtain f2 where
    f2: "file_rz h2 = Some f2" "stream_layout f2 ?m ([] @ map (zipped_of run_codec ?m) ?cs)"
    "20 \<le> length (fbytes f2)" "take 8 (drop 12 (fbytes f2)) = le64 (size_rz h2)"
    "wbuf f2 = []" and w2: "writable f2" and p2: "fname f2 = fname f1"
    by auto
  from f2(2) have l2: "stream_layout f2 ?m (map (zipped_of run_codec ?m) ?cs)" by simp
  from layout_bytes [OF l2 f2(3,4,5)]
  have b2: "fbytes f2 = RZipHeader @ le32 ?m @ le64 (size_rz h2) @ ?F" .
  have sm: "sum_list (map unat (replicate 4096 ?m)) = 4294967296"
    by (simp add: sum_list_replicate)
  from Writes_result [OF w] have sz: "size_rz h2 = 4294967296"
    unfolding sm by simp
  have r1: "?ws = ?w # replicate 4095 ?w"
    using replicate_Suc [of 4095 ?w] by simp
  have zz: "zipped_of run_codec ?m zero_block = 0x52 # le32 1048576 @ [0]"
    using zero_block_zipped by (simp add: zipped_of_def)
  have "\<exists>T. ?F = le32 6 @ T"
    unfolding r1 by (simp add: zero_block_chunks zz frame_def zero_block_length)
  then obtain T where F: "?F = le32 6 @ T" by blast
  from Close_written [OF f2(1) w2 f2(5), of ?d1] p1 p2
  have c: "Close ?d1 h2 = (?d1\<lparr>files := (files ?d1)(''b.state'' \<mapsto> fbytes f2)\<rparr>,
                          h2\<lparr>file_rz := None, chunk := []\<rparr>)" by simp
  let ?d2 = "?d1\<lparr>files := (files ?d1)(''b.state'' \<mapsto> fbytes f2)\<rparr>"
  let ?h3 = "h2\<lparr>file_rz := None, chunk := []\<rparr>"
  have n3: "file_rz ?h3 = None" by simp
  have fl: "files ?d2 ''b.state'' =
              Some (RZipHeader @ le32 ?m @ le64 4294967296 @ le32 6 @ T)"
    unfolding b2 sz F by simp
  have big: "2 ^ 32 \<le> unat (4294967296 :: u64)" by simp
  note o4 = Open_read_legacy [OF n3 fl big]
  let ?f4 = "\<lparr>fbytes = RZipHeader @ le32 ?m @ le64 4294967296 @ le32 6 @ T, fpos = 16,
               writable = False, quota = capacity ?d2, fname = ''b.state'', wbuf = [],
               bufsize = bufsiz ?d2\<rparr>"
  let ?h4 = "?h3\<lparr>file_rz := Some ?f4, size_rz := 4294967296 AND 0xffffffff, maxChunkSize := ?m,
               chunk := replicate (unat ?m) 0, chunkIndex := 0, chunkSize := 0,
               writing := False\<rparr>"
  have "\<exists>g'. Read run_codec ?h4 zero_block 1048576 = Inr (g', zero_block, 0)"
    by (rule Read_after_rewind [of _ ?f4 _ T]) simp_all
  then obtain h5 where r: "Read run_codec ?h4 zero_block 1048576 = Inr (h5, zero_block, 0)"
    by blast
  show ?thesis
    unfolding big_round_trip_def o1
    by (simp only: sum.case prod.case w c o4 r simp_thms)
qed
end
